theory Spec2Isabelle
  imports Main "HOL-Library.Sublist"
begin

section \<open>JavaScript string primitives used by the sources\<close>

text \<open>
  Strings are lists of characters; a character stands for one UTF-16 code unit below 256.
  The double quote is written \<open>CHR 0x22\<close> throughout.
\<close>

definition dq :: char where
  "dq = CHR 0x22"

definition is_space :: "char \<Rightarrow> bool" where
  \<comment> \<open>the class \<open>\s\<close> of a JavaScript regular expression, which is also what
      \<open>String.prototype.trim\<close> removes: TAB, LF, VT, FF, CR, SPACE and NBSP\<close>
  "is_space c = (c = CHR 0x09 \<or> c = CHR 0x0A \<or> c = CHR 0x0B \<or> c = CHR 0x0C \<or> c = CHR 0x0D
                 \<or> c = CHR 0x20 \<or> c = CHR 0xA0)"

definition trim :: "string \<Rightarrow> string" where
  \<comment> \<open>\<open>s.trim()\<close>\<close>
  "trim s = rev (dropWhile is_space (rev (dropWhile is_space s)))"

fun indexOf0 :: "string \<Rightarrow> string \<Rightarrow> nat option" where
  \<comment> \<open>\<open>s.indexOf(needle)\<close>, with \<open>None\<close> for -1\<close>
  "indexOf0 [] needle = (if needle = [] then Some 0 else None)"
| "indexOf0 (c # cs) needle =
     (if prefix needle (c # cs) then Some 0 else map_option Suc (indexOf0 cs needle))"

definition indexOf :: "string \<Rightarrow> string \<Rightarrow> nat \<Rightarrow> nat option" where
  \<comment> \<open>\<open>s.indexOf(needle, start)\<close>\<close>
  "indexOf s needle start = map_option (\<lambda>i. start + i) (indexOf0 (drop start s) needle)"

definition substring :: "string \<Rightarrow> nat \<Rightarrow> nat \<Rightarrow> string" where
  \<comment> \<open>\<open>s.substring(a, b)\<close>; the sources only call it with \<open>a \<le> b \<le> s.length\<close>, and
      JavaScript swaps the arguments when \<open>a > b\<close>\<close>
  "substring s a b = take (max a b - min a b) (drop (min a b) s)"

section \<open>The stream tag parser (ResponseProcessor)\<close>

datatype ActionType = CREATE | EDIT | DELETE | COMMAND | TEXT

fun typeName :: "ActionType \<Rightarrow> string" where
  "typeName CREATE = ''CREATE''"
| "typeName EDIT = ''EDIT''"
| "typeName DELETE = ''DELETE''"
| "typeName COMMAND = ''COMMAND''"
| "typeName TEXT = ''TEXT''"

subsection \<open>actionStartRegex\<close>

text \<open>
  The source's regular expression is
  \<^verbatim>\<open>/<action type="(CREATE|EDIT|DELETE|COMMAND|TEXT)"(?:\s+path="([^"]+)")?\s*>/\<close>.
  \<open>matchAt s\<close> matches it at the first character of \<open>s\<close> and returns the captured type,
  the captured path (\<open>None\<close> when the optional group did not take part) and the length of
  the whole match. The pieces are matched in the order the backtracking matcher tries
  them: the greedy quantifiers take the longest run, the optional group is tried before
  it is skipped.
\<close>

definition tagOpen :: string where
  "tagOpen = ''<action type='' @ [dq]"

definition pathOpen :: string where
  "pathOpen = ''path='' @ [dq]"

definition matchType :: "string \<Rightarrow> ActionType option" where
  \<comment> \<open>the alternation \<open>(CREATE|EDIT|DELETE|COMMAND|TEXT)\<close>, alternatives in order\<close>
  "matchType s =
     (if prefix ''CREATE'' s then Some CREATE
      else if prefix ''EDIT'' s then Some EDIT
      else if prefix ''DELETE'' s then Some DELETE
      else if prefix ''COMMAND'' s then Some COMMAND
      else if prefix ''TEXT'' s then Some TEXT
      else None)"

definition matchPathAttr :: "string \<Rightarrow> (string \<times> string) option" where
  \<comment> \<open>the group \<open>\s+path="([^"]+)"\<close>: the captured path and the input left after it\<close>
  "matchPathAttr s =
     (let ws = takeWhile is_space s; r = dropWhile is_space s in
      if ws \<noteq> [] \<and> prefix pathOpen r then
        (let p = takeWhile (\<lambda>c. c \<noteq> dq) (drop (length pathOpen) r);
             r' = dropWhile (\<lambda>c. c \<noteq> dq) (drop (length pathOpen) r)
         in if p \<noteq> [] \<and> r' \<noteq> [] then Some (p, tl r') else None)
      else None)"

definition matchTagEnd :: "string \<Rightarrow> string option" where
  \<comment> \<open>\<open>\s*>\<close>: the input left after the closing angle bracket\<close>
  "matchTagEnd s =
     (case dropWhile is_space s of
        [] \<Rightarrow> None
      | c # r \<Rightarrow> if c = CHR ''>'' then Some r else None)"

definition matchAt :: "string \<Rightarrow> (ActionType \<times> string option \<times> nat) option" where
  "matchAt s =
     (if prefix tagOpen s then
        (case matchType (drop (length tagOpen) s) of
           None \<Rightarrow> None
         | Some ty \<Rightarrow>
             (case drop (length tagOpen + length (typeName ty)) s of
                [] \<Rightarrow> None
              | q # r1 \<Rightarrow>
                  if q = dq then
                    (case matchPathAttr r1 of
                       Some (p, r2) \<Rightarrow>
                         (case matchTagEnd r2 of
                            Some r3 \<Rightarrow> Some (ty, Some p, length s - length r3)
                          | None \<Rightarrow>
                              (case matchTagEnd r1 of
                                 Some r3 \<Rightarrow> Some (ty, None, length s - length r3)
                               | None \<Rightarrow> None))
                     | None \<Rightarrow>
                         (case matchTagEnd r1 of
                            Some r3 \<Rightarrow> Some (ty, None, length s - length r3)
                          | None \<Rightarrow> None))
                  else None))
      else None)"

fun regexSearch :: "string \<Rightarrow> (nat \<times> ActionType \<times> string option \<times> nat) option" where
  \<comment> \<open>\<open>buffer.match(actionStartRegex)\<close>: the leftmost match, as
      (match.index, match[1], match[2], match[0].length)\<close>
  "regexSearch [] = None"
| "regexSearch (c # cs) =
     (case matchAt (c # cs) of
        Some (ty, p, n) \<Rightarrow> Some (0, ty, p, n)
      | None \<Rightarrow> map_option (\<lambda>(i, m). (Suc i, m)) (regexSearch cs))"

subsection \<open>Parser state\<close>

record FileAction =
  fa_type :: ActionType
  fa_path :: string
  fa_content :: string

text \<open>
  The fields of the class that the tag processing reads or writes. \<open>actionQueue\<close> is the
  parser's view of its queue: the calls \<open>addAction(type, path, content)\<close> it has made, in
  order, or \<open>None\<close> while no queue is attached. Timing and token statistics, logging and
  the progress sink do not feed back into the parser and are left out.
\<close>

record ResponseProcessor =
  chunkBuffer :: string
  fullResponse :: string
  chunkCount :: nat
  commandCount :: nat
  textCount :: nat
  generatedFiles :: "string \<rightharpoonup> string"
  currentFileAction :: "FileAction option"
  streamingContent :: string
  actionQueue :: "(ActionType \<times> string \<times> string) list option"

definition newResponseProcessor :: "(string \<rightharpoonup> string) \<Rightarrow> ResponseProcessor" where
  \<comment> \<open>the constructor\<close>
  "newResponseProcessor initialGeneratedFiles =
     \<lparr> chunkBuffer = [], fullResponse = [], chunkCount = 0, commandCount = 0, textCount = 0,
       generatedFiles = initialGeneratedFiles, currentFileAction = None,
       streamingContent = [], actionQueue = None \<rparr>"

definition setActionQueue :: "ResponseProcessor \<Rightarrow> ResponseProcessor" where
  \<comment> \<open>\<open>setActionQueue(new ActionQueue(...))\<close>: a fresh queue, nothing added yet\<close>
  "setActionQueue s = s\<lparr>actionQueue := Some []\<rparr>"

definition addAction :: "ActionType \<Rightarrow> string \<Rightarrow> string \<Rightarrow> ResponseProcessor \<Rightarrow> ResponseProcessor" where
  \<comment> \<open>\<open>if (this.actionQueue) await this.actionQueue.addAction(type, path, content)\<close>\<close>
  "addAction ty p c s = s\<lparr>actionQueue := map_option (\<lambda>q. q @ [(ty, p, c)]) (actionQueue s)\<rparr>"

definition closingTag :: string where
  "closingTag = ''</action>''"

subsection \<open>processActionTags and processChunk\<close>

text \<open>
  \<open>processStep\<close> is one pass through the body of \<open>processActionTags\<close>: \<open>Some s'\<close> when the
  pass ends in the recursive call \<open>await this.processActionTags()\<close> on state \<open>s'\<close>, and
  \<open>None\<close> when it returns; every returning path leaves the state as it found it.
\<close>

definition processStep :: "ResponseProcessor \<Rightarrow> ResponseProcessor option" where
  "processStep s =
     (case currentFileAction s of
        Some a \<Rightarrow>
          (case indexOf (chunkBuffer s) closingTag 0 of
             Some closingIndex \<Rightarrow>
               (let newContent = substring (chunkBuffer s) 0 closingIndex;
                    a' = a\<lparr>fa_content := fa_content a @ newContent\<rparr>;
                    s1 = (if (fa_type a' = CREATE \<or> fa_type a' = EDIT) \<and> fa_path a' \<noteq> []
                          then s\<lparr>generatedFiles := (generatedFiles s)(fa_path a' \<mapsto> fa_content a')\<rparr>
                          else s);
                    s2 = addAction (fa_type a') (fa_path a') (fa_content a') s1
                in Some (s2\<lparr>currentFileAction := None, streamingContent := [],
                              chunkBuffer := drop (closingIndex + length closingTag) (chunkBuffer s)\<rparr>))
           | None \<Rightarrow> None)
      | None \<Rightarrow>
          (case regexSearch (chunkBuffer s) of
             None \<Rightarrow> None
           | Some (index, actionType, path, len) \<Rightarrow>
               (let actionPath = (case path of None \<Rightarrow> [] | Some p \<Rightarrow> p) in
                if actionType = TEXT then
                  (case indexOf (chunkBuffer s) closingTag (index + len) of
                     Some closingIndex \<Rightarrow>
                       (let textContent = trim (substring (chunkBuffer s) (index + len) closingIndex);
                            s1 = addAction TEXT [] textContent s
                        in Some (s1\<lparr>textCount := textCount s + 1,
                                      chunkBuffer := drop (closingIndex + length closingTag) (chunkBuffer s)\<rparr>))
                   | None \<Rightarrow> None)
                else if actionType = COMMAND then
                  (case indexOf (chunkBuffer s) closingTag (index + len) of
                     Some closingIndex \<Rightarrow>
                       (let commandContent = trim (substring (chunkBuffer s) (index + len) closingIndex)
                        in Some (s\<lparr>currentFileAction :=
                                       Some \<lparr>fa_type = actionType, fa_path = [], fa_content = commandContent\<rparr>,
                                     commandCount := commandCount s + 1,
                                     chunkBuffer := drop (index + len) (chunkBuffer s)\<rparr>))
                   | None \<Rightarrow> None)
                else if (actionType = CREATE \<or> actionType = EDIT \<or> actionType = DELETE)
                        \<and> (actionType \<noteq> DELETE \<or> actionPath \<noteq> []) then
                  Some (s\<lparr>currentFileAction :=
                             Some \<lparr>fa_type = actionType, fa_path = actionPath, fa_content = []\<rparr>,
                           streamingContent := [],
                           chunkBuffer := drop (index + len) (chunkBuffer s)\<rparr>)
                else None)))"


lemma indexOf0_bound: "indexOf0 s n = Some i \<Longrightarrow> i + length n \<le> length s"
proof (induction s arbitrary: i)
  case Nil then show ?case by (auto split: if_splits)
next
  case (Cons c cs)
  show ?case
  proof (cases "prefix n (c # cs)")
    case True
    with Cons.prems have "i = 0" by simp
    with True show ?thesis by (auto dest: prefix_length_le)
  next
    case False
    with Cons.prems obtain j where "indexOf0 cs n = Some j" "i = Suc j" by auto
    with Cons.IH show ?thesis by fastforce
  qed
qed

lemma indexOf_bound:
  "indexOf s n k = Some i \<Longrightarrow> n \<noteq> [] \<Longrightarrow> k \<le> i \<and> i + length n \<le> length s"
  unfolding indexOf_def by (cases "k \<le> length s") (auto dest!: indexOf0_bound)

lemma matchTagEnd_len: "matchTagEnd s = Some r \<Longrightarrow> length r < length s"
  unfolding matchTagEnd_def
  using length_dropWhile_le[of is_space s]
  by (auto split: list.splits if_splits)

lemma matchPathAttr_len: "matchPathAttr s = Some (p, r) \<Longrightarrow> length r < length s"
  unfolding matchPathAttr_def Let_def
  using length_dropWhile_le[of is_space s]
    length_dropWhile_le[of "\<lambda>c. c \<noteq> dq" "drop (length pathOpen) (dropWhile is_space s)"]
  by (cases "dropWhile (\<lambda>c. c \<noteq> dq) (drop (length pathOpen) (dropWhile is_space s))")
     (auto split: if_splits)

lemma matchAt_len: "matchAt s = Some (ty, p, n) \<Longrightarrow> 0 < n \<and> n \<le> length s"
  unfolding matchAt_def
  by (auto split: if_splits option.splits list.splits
           dest!: matchTagEnd_len matchPathAttr_len arg_cong[where f=length])

lemma regexSearch_len:
  "regexSearch b = Some (i, ty, p, n) \<Longrightarrow> 0 < n \<and> i + n \<le> length b"
proof (induction b arbitrary: i)
  case Nil then show ?case by simp
next
  case (Cons c cs)
  show ?case
  proof (cases "matchAt (c # cs)")
    case None
    with Cons.prems obtain j where "regexSearch cs = Some (j, ty, p, n)" "i = Suc j"
      by auto
    with Cons.IH show ?thesis by fastforce
  next
    case (Some m)
    with Cons.prems have "matchAt (c # cs) = Some (ty, p, n)" "i = 0"
      by (auto split: prod.splits)
    then show ?thesis using matchAt_len by fastforce
  qed
qed

lemma processStep_shrinks:
  "processStep s = Some s' \<Longrightarrow> length (chunkBuffer s') < length (chunkBuffer s)"
  unfolding processStep_def Let_def addAction_def
  by (auto split: option.splits if_splits prod.splits
           dest!: indexOf_bound regexSearch_len simp: closingTag_def)

text \<open>
  \<open>processActionTags\<close>: the body, repeated while it ends in the recursive call. Every
  recursive call is on a strictly shorter buffer, so the recursion ends.
\<close>

function processActionTags :: "ResponseProcessor \<Rightarrow> ResponseProcessor" where
  "processActionTags s =
     (case processStep s of None \<Rightarrow> s | Some s' \<Rightarrow> processActionTags s')"
  by pat_completeness auto
termination
  by (relation "measure (\<lambda>s. length (chunkBuffer s))") (auto dest: processStep_shrinks)

declare processActionTags.simps [simp del]

definition bufferChunk :: "ResponseProcessor \<Rightarrow> string \<Rightarrow> ResponseProcessor" where
  \<comment> \<open>the part of \<open>processChunk(text)\<close> before the buffer is processed: count the chunk,
      append the text to the full response and to the buffer, and to the preview of an
      open CREATE or EDIT\<close>
  "bufferChunk s text =
     (let s1 = s\<lparr>chunkCount := chunkCount s + 1,
                 fullResponse := fullResponse s @ text,
                 chunkBuffer := chunkBuffer s @ text\<rparr>
      in (case currentFileAction s1 of
            Some a \<Rightarrow>
              if fa_type a = CREATE \<or> fa_type a = EDIT
              then s1\<lparr>streamingContent := streamingContent s1 @ text\<rparr> else s1
          | None \<Rightarrow> s1))"

definition processChunk :: "ResponseProcessor \<Rightarrow> string \<Rightarrow> ResponseProcessor" where
  \<comment> \<open>\<open>processChunk(text)\<close>\<close>
  "processChunk s text = processActionTags (bufferChunk s text)"

definition completedActions :: "ResponseProcessor \<Rightarrow> (ActionType \<times> string \<times> string) list" where
  \<comment> \<open>the actions handed to the queue so far, as (type, path, content)\<close>
  "completedActions s = (case actionQueue s of None \<Rightarrow> [] | Some q \<Rightarrow> q)"

definition freshParser :: "(string \<rightharpoonup> string) \<Rightarrow> ResponseProcessor" where
  \<comment> \<open>the parser as \<open>streamResponse\<close> sets it up: constructed, then given a new queue\<close>
  "freshParser files = setActionQueue (newResponseProcessor files)"

subsection \<open>The language of actionStartRegex\<close>

text \<open>
  \<open>tagText ty po ws1 ws2\<close> is the text of a start tag with type \<open>ty\<close>, path \<open>po\<close> and
  the white space \<open>ws1\<close> before \<open>path=\<close> and \<open>ws2\<close> before the closing bracket;
  \<open>tagShape\<close> says which of these texts the regular expression accepts. \<open>matchAt\<close> is
  proved below to accept exactly these texts, each in one way only.
\<close>

definition tagText :: "ActionType \<Rightarrow> string option \<Rightarrow> string \<Rightarrow> string \<Rightarrow> string" where
  "tagText ty po ws1 ws2 =
     tagOpen @ typeName ty @ [dq]
       @ (case po of None \<Rightarrow> [] | Some p \<Rightarrow> ws1 @ pathOpen @ p @ [dq]) @ ws2 @ ''>''"

definition tagShape :: "string option \<Rightarrow> string \<Rightarrow> string \<Rightarrow> bool" where
  "tagShape po ws1 ws2 =
     (list_all is_space ws2 \<and>
      (case po of None \<Rightarrow> True
       | Some p \<Rightarrow> ws1 \<noteq> [] \<and> list_all is_space ws1 \<and> p \<noteq> [] \<and> list_all (\<lambda>c. c \<noteq> dq) p))"

definition feed :: "ResponseProcessor \<Rightarrow> string \<Rightarrow> ResponseProcessor" where
  \<comment> \<open>more text at the end of the buffer, nothing else changed\<close>
  "feed s t = s\<lparr>chunkBuffer := chunkBuffer s @ t\<rparr>"

definition parserCore ::
  "ResponseProcessor \<Rightarrow> string \<times> FileAction option \<times> (ActionType \<times> string \<times> string) list option
     \<times> (string \<rightharpoonup> string) \<times> nat \<times> nat" where
  \<comment> \<open>the fields the tag processing reads; the chunk count, the full response and the
      preview are written only\<close>
  "parserCore s = (chunkBuffer s, currentFileAction s, actionQueue s, generatedFiles s,
                   commandCount s, textCount s)"

lemmas parser_eval =
  freshParser_def setActionQueue_def newResponseProcessor_def processChunk_def bufferChunk_def
  processStep_def completedActions_def indexOf_def substring_def closingTag_def matchAt_def
  tagOpen_def pathOpen_def dq_def matchType_def matchPathAttr_def matchTagEnd_def is_space_def
  Let_def addAction_def trim_def

subsection \<open>Facts about the string primitives and the regular expression\<close>

lemma prefix_append_short: "prefix n (a @ b) \<Longrightarrow> length n \<le> length a \<Longrightarrow> prefix n a"
  by (auto simp: prefix_append dest: prefix_length_le)

lemma indexOf0_append: "indexOf0 s n = Some i \<Longrightarrow> indexOf0 (s @ t) n = Some i"
proof (induction s arbitrary: i)
  case Nil
  then show ?case by (cases t) (auto split: if_splits)
next
  case (Cons c cs)
  show ?case
  proof (cases "prefix n (c # cs)")
    case True
    then have "prefix n ((c # cs) @ t)" by (rule prefix_prefix)
    with True Cons.prems show ?thesis by simp
  next
    case False
    with Cons.prems obtain j where j: "indexOf0 cs n = Some j" "i = Suc j" by auto
    from j(1) have "length n \<le> length (c # cs)" by (auto dest: indexOf0_bound)
    with False have "\<not> prefix n ((c # cs) @ t)" using prefix_append_short by blast
    with j Cons.IH[OF j(1)] show ?thesis by simp
  qed
qed

lemma indexOf_append:
  "indexOf s n k = Some i \<Longrightarrow> k \<le> length s \<Longrightarrow> indexOf (s @ t) n k = Some i"
  unfolding indexOf_def by (auto dest: indexOf0_append)

lemma spaces_then: "list_all P ws \<Longrightarrow> \<not> P c \<Longrightarrow> takeWhile P (ws @ c # r) = ws \<and> dropWhile P (ws @ c # r) = c # r"
  by (induction ws) auto

lemma split_while: "dropWhile P s = c # r \<Longrightarrow> s = takeWhile P s @ c # r \<and> list_all P (takeWhile P s) \<and> \<not> P c"
proof -
  assume a: "dropWhile P s = c # r"
  have "s = takeWhile P s @ dropWhile P s" by simp
  with a have 1: "s = takeWhile P s @ c # r" by simp
  have 2: "list_all P (takeWhile P s)" by (auto simp: list_all_iff dest: set_takeWhileD)
  have "\<not> P (hd (dropWhile P s))" using a by (intro hd_dropWhile) auto
  with a have 3: "\<not> P c" by simp
  from 1 2 3 show ?thesis by blast
qed

lemma matchTagEnd_iff:
  "matchTagEnd s = Some r \<longleftrightarrow> (\<exists>ws. list_all is_space ws \<and> s = ws @ CHR ''>'' # r)"
proof
  assume "matchTagEnd s = Some r"
  then have "dropWhile is_space s = CHR ''>'' # r"
    unfolding matchTagEnd_def by (auto split: list.splits if_splits)
  from split_while[OF this] show "\<exists>ws. list_all is_space ws \<and> s = ws @ CHR ''>'' # r" by blast
next
  assume "\<exists>ws. list_all is_space ws \<and> s = ws @ CHR ''>'' # r"
  then obtain ws where "list_all is_space ws" "s = ws @ CHR ''>'' # r" by blast
  moreover have "\<not> is_space CHR ''>''" by (simp add: is_space_def)
  ultimately show "matchTagEnd s = Some r"
    unfolding matchTagEnd_def using spaces_then[of is_space ws "CHR ''>''" r] by simp
qed

lemma matchPathAttr_iff:
  "matchPathAttr s = Some (p, r) \<longleftrightarrow>
     (\<exists>ws. ws \<noteq> [] \<and> list_all is_space ws \<and> p \<noteq> [] \<and> list_all (\<lambda>c. c \<noteq> dq) p
           \<and> s = ws @ pathOpen @ p @ dq # r)"
proof
  assume m: "matchPathAttr s = Some (p, r)"
  define ws where "ws = takeWhile is_space s"
  define r0 where "r0 = dropWhile is_space s"
  define r1 where "r1 = drop (length pathOpen) r0"
  from m have a: "ws \<noteq> []" "prefix pathOpen r0" "takeWhile (\<lambda>c. c \<noteq> dq) r1 = p" "p \<noteq> []"
    "dropWhile (\<lambda>c. c \<noteq> dq) r1 \<noteq> []" "tl (dropWhile (\<lambda>c. c \<noteq> dq) r1) = r"
    unfolding matchPathAttr_def Let_def ws_def r0_def r1_def by (auto split: if_splits)
  from a(2) have r0: "r0 = pathOpen @ r1" unfolding r1_def by (auto simp: prefix_def)
  from a(5,6) obtain q where q: "dropWhile (\<lambda>c. c \<noteq> dq) r1 = q # r"
    by (cases "dropWhile (\<lambda>c. c \<noteq> dq) r1") auto
  from split_while[OF q] a(3) have r1: "r1 = p @ dq # r" "list_all (\<lambda>c. c \<noteq> dq) p" by auto
  have "s = ws @ r0" unfolding ws_def r0_def by simp
  then have s: "s = ws @ pathOpen @ p @ dq # r" by (simp only: r0 r1(1))
  have sp: "list_all is_space ws" unfolding ws_def by (auto simp: list_all_iff dest: set_takeWhileD)
  from a(1) sp a(4) r1(2) s
  show "\<exists>ws. ws \<noteq> [] \<and> list_all is_space ws \<and> p \<noteq> [] \<and> list_all (\<lambda>c. c \<noteq> dq) p
           \<and> s = ws @ pathOpen @ p @ dq # r" by blast
next
  assume "\<exists>ws. ws \<noteq> [] \<and> list_all is_space ws \<and> p \<noteq> [] \<and> list_all (\<lambda>c. c \<noteq> dq) p
           \<and> s = ws @ pathOpen @ p @ dq # r"
  then obtain ws where w: "ws \<noteq> []" "list_all is_space ws" "p \<noteq> []" "list_all (\<lambda>c. c \<noteq> dq) p"
    "s = ws @ pathOpen @ p @ dq # r" by blast
  have np: "\<not> is_space CHR ''p''" by (simp add: is_space_def)
  have s: "s = ws @ CHR ''p'' # (''ath='' @ [dq] @ p @ dq # r)" using w(5) by (simp add: pathOpen_def)
  have 1: "takeWhile is_space s = ws" "dropWhile is_space s = pathOpen @ p @ dq # r"
    using spaces_then[OF w(2) np] unfolding s by (simp_all add: pathOpen_def)
  have 2: "takeWhile (\<lambda>c. c \<noteq> dq) (p @ dq # r) = p" "dropWhile (\<lambda>c. c \<noteq> dq) (p @ dq # r) = dq # r"
    using spaces_then[OF w(4), of dq r] by simp_all
  show "matchPathAttr s = Some (p, r)"
    unfolding matchPathAttr_def Let_def using w(1,3) by (simp add: 1 2)
qed

lemma matchPathAttr_no_end: "matchPathAttr s = Some (p, r) \<Longrightarrow> matchTagEnd s = None"
proof -
  assume "matchPathAttr s = Some (p, r)"
  then obtain ws where w: "list_all is_space ws" "s = ws @ pathOpen @ p @ dq # r"
    unfolding matchPathAttr_iff by blast
  have np: "\<not> is_space CHR ''p''" by (simp add: is_space_def)
  have s: "s = ws @ CHR ''p'' # (''ath='' @ [dq] @ p @ dq # r)" using w(2) by (simp add: pathOpen_def)
  show ?thesis unfolding matchTagEnd_def s using spaces_then[OF w(1) np] by simp
qed

lemma matchType_append: "matchType (typeName ty @ r) = Some ty"
  by (cases ty) (simp_all add: matchType_def)

lemma matchType_prefix: "matchType s = Some ty \<Longrightarrow> prefix (typeName ty) s"
  unfolding matchType_def by (auto split: if_splits)

lemma matchAt_sound:
  assumes "matchAt s = Some (ty, po, n)"
  shows "\<exists>ws1 ws2 e. tagShape po ws1 ws2 \<and> s = tagText ty po ws1 ws2 @ e
                    \<and> n = length (tagText ty po ws1 ws2)"
proof -
  from assms have p: "prefix tagOpen s" unfolding matchAt_def by (auto split: if_splits)
  then obtain s1 where s: "s = tagOpen @ s1" by (auto simp: prefix_def)
  from assms p have "matchType s1 \<noteq> None" unfolding matchAt_def s by (auto split: option.splits)
  then obtain ty0 where ty0: "matchType s1 = Some ty0" by blast
  then obtain s2 where s1: "s1 = typeName ty0 @ s2" by (auto dest!: matchType_prefix simp: prefix_def)
  have d: "drop (length tagOpen + length (typeName ty0)) s = s2" unfolding s s1 by simp
  from assms obtain r1 where s2: "s2 = dq # r1"
    unfolding matchAt_def using p ty0 d unfolding s by (auto split: list.splits if_splits)
  have m: "(case matchPathAttr r1 of
               Some (p, r2) \<Rightarrow>
                 (case matchTagEnd r2 of
                    Some r3 \<Rightarrow> Some (ty0, Some p, length s - length r3)
                  | None \<Rightarrow>
                      (case matchTagEnd r1 of
                         Some r3 \<Rightarrow> Some (ty0, None, length s - length r3)
                       | None \<Rightarrow> None))
             | None \<Rightarrow>
                 (case matchTagEnd r1 of
                    Some r3 \<Rightarrow> Some (ty0, None, length s - length r3)
                  | None \<Rightarrow> None)) = Some (ty, po, n)"
    using assms p ty0 d s2 unfolding matchAt_def s by simp
  show ?thesis
  proof (cases "matchPathAttr r1")
    case None
    with m obtain r3 where r3: "matchTagEnd r1 = Some r3" "ty = ty0" "po = None" "n = length s - length r3"
      by (auto split: option.splits)
    from r3(1) obtain ws where ws: "list_all is_space ws" "r1 = ws @ CHR ''>'' # r3"
      unfolding matchTagEnd_iff by blast
    have "s = tagText ty po [] ws @ r3" unfolding s s1 s2 ws(2) r3 tagText_def by simp
    moreover have "n = length (tagText ty po [] ws)" unfolding r3(4) s s1 s2 ws(2) r3 tagText_def by simp
    moreover have "tagShape po [] ws" unfolding tagShape_def r3 using ws(1) by simp
    ultimately show ?thesis by blast
  next
    case (Some pr)
    then obtain p r2 where pr: "matchPathAttr r1 = Some (p, r2)" by (cases pr) auto
    from matchPathAttr_no_end[OF pr] have ne: "matchTagEnd r1 = None" .
    from m pr ne obtain r3 where r3: "matchTagEnd r2 = Some r3" "ty = ty0" "po = Some p" "n = length s - length r3"
      by (auto split: option.splits)
    from pr obtain ws1 where ws1: "ws1 \<noteq> []" "list_all is_space ws1" "p \<noteq> []" "list_all (\<lambda>c. c \<noteq> dq) p"
       "r1 = ws1 @ pathOpen @ p @ dq # r2" unfolding matchPathAttr_iff by blast
    from r3(1) obtain ws where ws: "list_all is_space ws" "r2 = ws @ CHR ''>'' # r3"
      unfolding matchTagEnd_iff by blast
    have "s = tagText ty po ws1 ws @ r3" unfolding s s1 s2 ws(2) ws1(5) r3 tagText_def by simp
    moreover have "n = length (tagText ty po ws1 ws)" unfolding r3(4) s s1 s2 ws1(5) ws(2) r3 tagText_def by simp
    moreover have "tagShape po ws1 ws" unfolding tagShape_def r3 using ws(1) ws1 by simp
    ultimately show ?thesis by blast
  qed
qed

lemma matchAt_complete:
  assumes "tagShape po ws1 ws2"
  shows "matchAt (tagText ty po ws1 ws2 @ e) = Some (ty, po, length (tagText ty po ws1 ws2))"
proof (cases po)
  case None
  define r1 where "r1 = ws2 @ CHR ''>'' # e"
  have te: "matchTagEnd r1 = Some e" unfolding matchTagEnd_iff r1_def using assms
    by (auto simp: tagShape_def)
  have "matchPathAttr r1 = None"
  proof (cases "matchPathAttr r1")
    case (Some pr)
    then show ?thesis using matchPathAttr_no_end[of r1 "fst pr" "snd pr"] te by simp
  qed simp
  moreover have "tagText ty po ws1 ws2 @ e = tagOpen @ typeName ty @ dq # r1"
    unfolding tagText_def None r1_def by simp
  ultimately show ?thesis
    unfolding matchAt_def using te
    by (simp add: matchType_append) (simp add: r1_def tagText_def None)
next
  case (Some p)
  define r2 where "r2 = ws2 @ CHR ''>'' # e"
  define r1 where "r1 = ws1 @ pathOpen @ p @ dq # r2"
  have te: "matchTagEnd r2 = Some e" unfolding matchTagEnd_iff r2_def using assms
    by (auto simp: tagShape_def)
  have pa: "matchPathAttr r1 = Some (p, r2)" unfolding matchPathAttr_iff r1_def using assms Some
    by (auto simp: tagShape_def)
  have "tagText ty po ws1 ws2 @ e = tagOpen @ typeName ty @ dq # r1"
    unfolding tagText_def Some r1_def r2_def by simp
  then show ?thesis
    unfolding matchAt_def using te pa
    by (simp add: matchType_append) (simp add: r1_def r2_def tagText_def Some)
qed

lemma matchAt_append: "matchAt s = Some r \<Longrightarrow> matchAt (s @ t) = Some r"
proof -
  assume a: "matchAt s = Some r"
  obtain ty po n where r: "r = (ty, po, n)" by (cases r) auto
  from matchAt_sound[OF a[unfolded r]] obtain ws1 ws2 e where
    w: "tagShape po ws1 ws2" "s = tagText ty po ws1 ws2 @ e" "n = length (tagText ty po ws1 ws2)"
    by blast
  show ?thesis using matchAt_complete[OF w(1), of ty "e @ t"] unfolding r w(2,3) by simp
qed

lemma matchAt_local:
  assumes "matchAt (s @ t) = Some (ty, po, n)" "n \<le> length s"
  shows "matchAt s = Some (ty, po, n)"
proof -
  from matchAt_sound[OF assms(1)] obtain ws1 ws2 e where
    w: "tagShape po ws1 ws2" "s @ t = tagText ty po ws1 ws2 @ e" "n = length (tagText ty po ws1 ws2)"
    by blast
  from w(2) have "take n (s @ t) = tagText ty po ws1 ws2" unfolding w(3) by simp
  with assms(2) have "take n s = tagText ty po ws1 ws2" by simp
  then have "s = tagText ty po ws1 ws2 @ drop n s" by (metis append_take_drop_id)
  then show ?thesis using matchAt_complete[OF w(1), of ty "drop n s"] w(3) by simp
qed

lemma suffix_skip:
  assumes "suffix (x # u) (xs @ ys)" "x \<notin> set xs"
  shows "suffix (x # u) ys"
proof -
  from assms(1) consider "suffix (x # u) ys" | w where "x # u = w @ ys" "suffix w xs"
    unfolding suffix_append by blast
  then show ?thesis
  proof cases
    case 1 then show ?thesis .
  next
    case 2
    show ?thesis
    proof (cases w)
      case Nil with 2 show ?thesis by simp
    next
      case (Cons a w')
      with 2 have "x \<in> set w" by simp
      with 2(2) have "x \<in> set xs" by (auto simp: suffix_def)
      with assms(2) show ?thesis by simp
    qed
  qed
qed

lemma first_occurrence_unique:
  assumes "u @ q # r = w @ q # r'" "q \<notin> set u" "q \<notin> set w"
  shows "u = w \<and> r = r'"
  using assms
proof (induction u arbitrary: w)
  case Nil then show ?case by (cases w) auto
next
  case (Cons a u)
  then show ?case by (cases w) auto
qed

lemma lt_not_space: "\<not> is_space CHR ''<''" by (simp add: is_space_def)

lemma spaces_no_lt: "list_all is_space ws \<Longrightarrow> CHR ''<'' \<notin> set ws"
  using lt_not_space by (auto simp: list_all_iff)

lemma typeName_no_lt: "CHR ''<'' \<notin> set (typeName ty)"
  by (cases ty) simp_all

lemma tag_no_inner_open:
  assumes sh: "tagShape po ws1 ws2"
    and eq: "tagText ty po ws1 ws2 = b1 @ tagOpen @ X # g"
    and b1: "b1 \<noteq> []"
    and X: "\<not> is_space X" "X \<noteq> CHR ''>''"
  shows False
proof -
  define inner where "inner = tagOpen @ X # g"
  have inner_hd: "inner = CHR ''<'' # (''action type='' @ [dq] @ X # g)"
    unfolding inner_def tagOpen_def by simp
  from b1 obtain c b1' where b1c: "b1 = c # b1'" by (cases b1) auto
  define body where "body = (case po of None \<Rightarrow> [] | Some p \<Rightarrow> ws1 @ pathOpen @ p @ [dq]) @ ws2 @ ''>''"
  have "tagText ty po ws1 ws2 = CHR ''<'' # (''action type='' @ [dq] @ typeName ty @ [dq]) @ body"
    unfolding tagText_def body_def tagOpen_def by simp
  with eq b1c have tl_eq: "(''action type='' @ [dq] @ typeName ty @ [dq]) @ body = b1' @ inner"
    unfolding inner_def by simp
  then have "suffix inner ((''action type='' @ [dq] @ typeName ty @ [dq]) @ body)"
    by (simp add: suffix_def)
  moreover have "CHR ''<'' \<notin> set (''action type='' @ [dq] @ typeName ty @ [dq])"
    using typeName_no_lt by (simp add: dq_def)
  ultimately have sb: "suffix inner body" unfolding inner_hd by (rule suffix_skip)
  have ws2: "CHR ''<'' \<notin> set (ws2 @ ''>'')" using sh spaces_no_lt by (simp add: tagShape_def)
  show False
  proof (cases po)
    case None
    then have "body = (ws2 @ ''>'') @ []" unfolding body_def by simp
    with sb have "suffix inner ((ws2 @ ''>'') @ [])" by simp
    then have "suffix inner []" unfolding inner_hd using ws2 by (rule suffix_skip)
    then show False unfolding inner_hd by simp
  next
    case (Some p)
    from sh Some have p: "list_all (\<lambda>c. c \<noteq> dq) p" "list_all is_space ws1" "list_all is_space ws2"
      by (simp_all add: tagShape_def)
    have body: "body = (ws1 @ pathOpen) @ (p @ ([dq] @ ws2 @ ''>''))" unfolding body_def Some by simp
    have "CHR ''<'' \<notin> set (ws1 @ pathOpen)" using spaces_no_lt[OF p(2)] by (simp add: pathOpen_def dq_def)
    with sb have "suffix inner (p @ ([dq] @ ws2 @ ''>''))" unfolding body inner_hd by (rule suffix_skip)
    then consider "suffix inner ([dq] @ ws2 @ ''>'')"
      | w where "inner = w @ ([dq] @ ws2 @ ''>'')" "suffix w p"
      unfolding suffix_append by blast
    then show False
    proof cases
      case 1
      then have "suffix inner (([dq] @ ws2 @ ''>'') @ [])" by simp
      moreover have "CHR ''<'' \<notin> set ([dq] @ ws2 @ ''>'')" using ws2 by (simp add: dq_def)
      ultimately have "suffix inner []" unfolding inner_hd by (rule suffix_skip)
      then show False unfolding inner_hd by simp
    next
      case 2
      from 2(2) p(1) have nw: "dq \<notin> set w" by (auto simp: suffix_def list_all_iff)
      have na: "dq \<notin> set ''<action type=''" by (simp add: dq_def)
      from 2(1) have e: "''<action type='' @ dq # (X # g) = w @ dq # (ws2 @ ''>'')"
        unfolding inner_def tagOpen_def by simp
      from first_occurrence_unique[OF e na nw] have "X # g = ws2 @ ''>''" by (rule conjunct2)
      then show False using X p(3) by (cases ws2) auto
    qed
  qed
qed

lemma regexSearch_Some:
  "regexSearch b = Some (i, ty, po, n) \<Longrightarrow> i \<le> length b \<and> matchAt (drop i b) = Some (ty, po, n)"
proof (induction b arbitrary: i)
  case Nil then show ?case by simp
next
  case (Cons c cs)
  show ?case
  proof (cases "matchAt (c # cs)")
    case None
    with Cons.prems obtain j where "regexSearch cs = Some (j, ty, po, n)" "i = Suc j" by auto
    with Cons.IH show ?thesis by fastforce
  next
    case (Some m)
    with Cons.prems show ?thesis by (auto split: prod.splits)
  qed
qed

lemma typeName_hd: "\<exists>X g. typeName ty = X # g \<and> \<not> is_space X \<and> X \<noteq> CHR ''>''"
  by (cases ty) (simp_all add: is_space_def)

lemma matchAt_blocked:
  assumes none: "matchAt (c # cs) = None"
    and later: "regexSearch cs = Some (j, ty', po', n')"
  shows "matchAt (c # cs @ t) = None"
proof (cases "matchAt (c # cs @ t)")
  case None then show ?thesis .
next
  case (Some r)
  obtain ty po n where r: "r = (ty, po, n)" by (cases r) auto
  have m: "matchAt ((c # cs) @ t) = Some (ty, po, n)" using Some r by simp
  have long: "length (c # cs) < n"
  proof (rule ccontr)
    assume "\<not> length (c # cs) < n"
    then have "n \<le> length (c # cs)" by simp
    from matchAt_local[OF m this] none show False by simp
  qed
  from matchAt_sound[OF m] obtain ws1 ws2 e where
    w: "tagShape po ws1 ws2" "(c # cs) @ t = tagText ty po ws1 ws2 @ e" "n = length (tagText ty po ws1 ws2)"
    by blast
  from w(2) have tk: "take n ((c # cs) @ t) = tagText ty po ws1 ws2" unfolding w(3) by simp
  have "take n ((c # cs) @ t) = take n (c # cs) @ take (n - length (c # cs)) t"
    by (rule take_append)
  moreover have "take n (c # cs) = c # cs" using long by (intro take_all) simp
  ultimately have outer: "tagText ty po ws1 ws2 = (c # cs) @ take (n - length (c # cs)) t"
    using tk by (simp only:)
  from regexSearch_Some[OF later] have j: "j \<le> length cs" "matchAt (drop j cs) = Some (ty', po', n')"
    by simp_all
  from matchAt_sound[OF j(2)] obtain v1 v2 e' where
    v: "drop j cs = tagText ty' po' v1 v2 @ e'" by blast
  obtain X g where X: "typeName ty' = X # g" "\<not> is_space X" "X \<noteq> CHR ''>''"
    using typeName_hd by blast
  from v X(1) obtain g' where g': "drop j cs = tagOpen @ X # g'"
    unfolding tagText_def by simp
  have "cs = take j cs @ drop j cs" by simp
  then have cs: "c # cs = (c # take j cs) @ tagOpen @ X # g'" unfolding g' by simp
  have "tagText ty po ws1 ws2 = (c # take j cs) @ tagOpen @ X # (g' @ take (n - length (c # cs)) t)"
    unfolding outer by (subst cs) simp
  from tag_no_inner_open[OF w(1) this _ X(2,3)] show ?thesis by simp
qed

lemma regexSearch_append: "regexSearch b = Some r \<Longrightarrow> regexSearch (b @ t) = Some r"
proof (induction b arbitrary: r)
  case Nil then show ?case by simp
next
  case (Cons c cs)
  show ?case
  proof (cases "matchAt (c # cs)")
    case (Some m)
    from matchAt_append[OF this, of t] Some Cons.prems show ?thesis by simp
  next
    case None
    with Cons.prems obtain r' where r': "regexSearch cs = Some r'" by auto
    obtain j ty' po' n' where "r' = (j, ty', po', n')" by (cases r') auto
    with r' have "matchAt (c # cs @ t) = None" using matchAt_blocked[OF None] by blast
    with None Cons.prems Cons.IH[OF r'] r' show ?thesis by simp
  qed
qed

subsection \<open>Feeding the parser in fragments\<close>

lemma substring_append:
  "a \<le> b \<Longrightarrow> b \<le> length s \<Longrightarrow> substring (s @ t) a b = substring s a b"
  unfolding substring_def by (simp add: min_def max_def)

lemma processStep_feed:
  assumes "processStep s = Some s'"
  shows "processStep (feed s t) = Some (feed s' t)"
proof (cases "currentFileAction s")
  case (Some a)
  with assms obtain k where k: "indexOf (chunkBuffer s) closingTag 0 = Some k"
    unfolding processStep_def by (auto split: option.splits)
  from indexOf_bound[OF k] have kb: "k + length closingTag \<le> length (chunkBuffer s)"
    by (simp add: closingTag_def)
  from indexOf_append[OF k, of t] have k': "indexOf (chunkBuffer s @ t) closingTag 0 = Some k" by simp
  have sub: "substring (chunkBuffer s @ t) 0 k = substring (chunkBuffer s) 0 k"
    using kb by (intro substring_append) simp_all
  show ?thesis using assms Some k k' kb sub
    unfolding processStep_def feed_def Let_def addAction_def
    by (auto split: if_splits)
next
  case None
  with assms obtain i ty po n where m: "regexSearch (chunkBuffer s) = Some (i, ty, po, n)"
    unfolding processStep_def by (auto split: option.splits)
  from regexSearch_append[OF m, of t] have m': "regexSearch (chunkBuffer s @ t) = Some (i, ty, po, n)" .
  from regexSearch_len[OF m] have mb: "i + n \<le> length (chunkBuffer s)" by simp
  show ?thesis
  proof (cases "ty = TEXT \<or> ty = COMMAND")
    case True
    with assms None m obtain k where k: "indexOf (chunkBuffer s) closingTag (i + n) = Some k"
      unfolding processStep_def Let_def by (auto split: option.splits if_splits)
    from indexOf_bound[OF k] have kb: "i + n \<le> k" "k + length closingTag \<le> length (chunkBuffer s)"
      by (simp_all add: closingTag_def)
    from indexOf_append[OF k mb, of t] have k': "indexOf (chunkBuffer s @ t) closingTag (i + n) = Some k" .
    have sub: "substring (chunkBuffer s @ t) (i + n) k = substring (chunkBuffer s) (i + n) k"
      using kb by (intro substring_append) simp_all
    show ?thesis using assms None m m' True k k' kb mb sub
      unfolding processStep_def feed_def Let_def addAction_def
      by (auto split: if_splits)
  next
    case False
    show ?thesis using assms None m m' False mb
      unfolding processStep_def feed_def Let_def addAction_def
      by (auto split: if_splits)
  qed
qed

lemma processActionTags_feed:
  "processActionTags (feed (processActionTags s) t) = processActionTags (feed s t)"
proof (induction s rule: processActionTags.induct)
  case (1 s)
  show ?case
  proof (cases "processStep s")
    case None
    then have "processActionTags s = s" by (subst processActionTags.simps) simp
    then show ?thesis by simp
  next
    case (Some s')
    then have a: "processActionTags s = processActionTags s'" by (subst processActionTags.simps) simp
    from processStep_feed[OF Some, of t]
    have b: "processActionTags (feed s t) = processActionTags (feed s' t)"
      by (subst processActionTags.simps) simp
    from "1.IH"[OF Some] a b show ?thesis by simp
  qed
qed

lemma processStep_core:
  assumes "parserCore s = parserCore s'"
  shows "map_option parserCore (processStep s) = map_option parserCore (processStep s')"
proof -
  from assms have e: "chunkBuffer s' = chunkBuffer s" "currentFileAction s' = currentFileAction s"
    "actionQueue s' = actionQueue s" "generatedFiles s' = generatedFiles s"
    "commandCount s' = commandCount s" "textCount s' = textCount s"
    by (simp_all add: parserCore_def)
  show ?thesis
  proof (cases "currentFileAction s")
    case (Some a)
    show ?thesis
    proof (cases "indexOf (chunkBuffer s) closingTag 0")
      case None
      with Some show ?thesis by (simp add: processStep_def e)
    next
      case (Some k)
      with \<open>currentFileAction s = Some a\<close> show ?thesis
        by (simp add: processStep_def e Let_def addAction_def parserCore_def)
    qed
  next
    case None
    show ?thesis
    proof (cases "regexSearch (chunkBuffer s)")
      case None
      with \<open>currentFileAction s = None\<close> show ?thesis by (simp add: processStep_def e)
    next
      case (Some m)
      obtain i ty po n where m: "m = (i, ty, po, n)" by (cases m) auto
      show ?thesis
      proof (cases "indexOf (chunkBuffer s) closingTag (i + n)")
        case None
        with Some m \<open>currentFileAction s = None\<close> show ?thesis
          by (simp add: processStep_def e Let_def addAction_def parserCore_def)
      next
        case (Some k)
        with \<open>regexSearch (chunkBuffer s) = Some m\<close> m \<open>currentFileAction s = None\<close> show ?thesis
          by (simp add: processStep_def e Let_def addAction_def parserCore_def)
      qed
    qed
  qed
qed

lemma processActionTags_None: "processStep s = None \<Longrightarrow> processActionTags s = s"
  by (subst processActionTags.simps) simp

lemma processActionTags_Some:
  "processStep s = Some s' \<Longrightarrow> processActionTags s = processActionTags s'"
  by (subst processActionTags.simps) simp

lemma processActionTags_core:
  "parserCore s = parserCore s' \<Longrightarrow> parserCore (processActionTags s) = parserCore (processActionTags s')"
proof (induction s arbitrary: s' rule: processActionTags.induct)
  case (1 s)
  from processStep_core[OF "1.prems"]
  have c: "map_option parserCore (processStep s) = map_option parserCore (processStep s')" .
  show ?case
  proof (cases "processStep s")
    case None
    with c have "processStep s' = None" by simp
    with None "1.prems" show ?thesis
      by (simp add: processActionTags_None)
  next
    case (Some s1)
    with c obtain s1' where s1': "processStep s' = Some s1'" "parserCore s1 = parserCore s1'"
      by (cases "processStep s'") auto
    from "1.IH"[OF Some s1'(2)] Some s1'(1) show ?thesis
      by (simp add: processActionTags_Some)
  qed
qed

lemma core_feed: "parserCore s = parserCore s' \<Longrightarrow> parserCore (feed s t) = parserCore (feed s' t)"
  by (simp add: parserCore_def feed_def)

lemma processChunk_bufferChunk: "processChunk s t = processActionTags (bufferChunk s t)"
  by (simp add: processChunk_def)

lemma bufferChunk_core: "parserCore (bufferChunk s t) = parserCore (feed s t)"
  by (simp add: parserCore_def feed_def bufferChunk_def Let_def split: option.splits)

lemma processChunk_core:
  assumes "parserCore s = parserCore s'"
  shows "parserCore (processChunk s t) = parserCore (processChunk s' t)"
proof -
  have "parserCore (bufferChunk s t) = parserCore (bufferChunk s' t)"
    using core_feed[OF assms] by (simp add: bufferChunk_core)
  then show ?thesis unfolding processChunk_bufferChunk by (rule processActionTags_core)
qed

lemma processChunk_twice:
  "parserCore (processChunk (processChunk s t) u) = parserCore (processChunk s (t @ u))"
proof -
  have "parserCore (processChunk (processChunk s t) u)
        = parserCore (processActionTags (feed (processActionTags (bufferChunk s t)) u))"
    unfolding processChunk_bufferChunk by (rule processActionTags_core) (rule bufferChunk_core)
  also have "\<dots> = parserCore (processActionTags (feed (bufferChunk s t) u))"
    by (simp only: processActionTags_feed)
  also have "\<dots> = parserCore (processActionTags (bufferChunk s (t @ u)))"
  proof (rule processActionTags_core)
    have "parserCore (feed (bufferChunk s t) u) = parserCore (feed (feed s t) u)"
      by (rule core_feed) (rule bufferChunk_core)
    also have "feed (feed s t) u = feed s (t @ u)" by (simp add: feed_def)
    finally show "parserCore (feed (bufferChunk s t) u) = parserCore (bufferChunk s (t @ u))"
      by (simp add: bufferChunk_core)
  qed
  finally show ?thesis unfolding processChunk_bufferChunk .
qed

lemma foldl_processChunk_core:
  "chunks \<noteq> [] \<Longrightarrow>
   parserCore (foldl processChunk s chunks) = parserCore (processChunk s (concat chunks))"
proof (induction chunks rule: rev_induct)
  case Nil then show ?case by simp
next
  case (snoc u ts)
  show ?case
  proof (cases "ts = []")
    case True then show ?thesis by simp
  next
    case False
    from snoc.IH[OF False]
    have "parserCore (processChunk (foldl processChunk s ts) u)
          = parserCore (processChunk (processChunk s (concat ts)) u)"
      by (rule processChunk_core)
    then show ?thesis by (simp add: processChunk_twice)
  qed
qed

lemma processChunk_settled:
  assumes "processStep s = None"
  shows "parserCore (processChunk s []) = parserCore s"
proof -
  have "parserCore (bufferChunk s []) = parserCore s" by (simp add: bufferChunk_core feed_def)
  then have "parserCore (processActionTags (bufferChunk s [])) = parserCore (processActionTags s)"
    by (rule processActionTags_core)
  moreover have "processActionTags s = s" using assms by (subst processActionTags.simps) simp
  ultimately show ?thesis by (simp add: processChunk_bufferChunk)
qed

lemma completedActions_core: "completedActions s = (case parserCore s of (b, c, q, r) \<Rightarrow> (case q of None \<Rightarrow> [] | Some q \<Rightarrow> q))"
  by (simp add: completedActions_def parserCore_def)

lemma fresh_settled: "processStep (freshParser files) = None"
  by (simp add: freshParser_def setActionQueue_def newResponseProcessor_def processStep_def)


lemma bufferChunk_fields:
  "chunkBuffer (bufferChunk s t) = chunkBuffer s @ t"
  "currentFileAction (bufferChunk s t) = currentFileAction s"
  "actionQueue (bufferChunk s t) = actionQueue s"
  "generatedFiles (bufferChunk s t) = generatedFiles s"
  by (simp_all add: bufferChunk_def Let_def split: option.splits)



subsection \<open>Claims about the stream tag parser\<close>

text \<open>
  C1 (chunk-boundary invariance). For every text and every way of cutting it into
  fragments, feeding the fragments one at a time to \<open>processChunk\<close> hands the queue the
  same actions, in the same order, as one call on the whole text. In particular the three
  fragments \<open><action typ\<close>, \<open>e="CREATE" path="a.txt">hel\<close>, \<open>lo</action>\<close> give
  exactly one CREATE action for \<open>a.txt\<close> with content \<open>hello\<close>.
\<close>

theorem chunk_boundary_invariance:
  "completedActions (foldl processChunk (freshParser files) chunks)
     = completedActions (processChunk (freshParser files) (concat chunks))
   \<and> completedActions (foldl processChunk (freshParser files)
        [''<action typ'',
         ''e='' @ [dq] @ ''CREATE'' @ [dq] @ '' path='' @ [dq] @ ''a.txt'' @ [dq] @ ''>hel'',
         ''lo</action>''])
     = [(CREATE, ''a.txt'', ''hello'')]"
proof
  have "parserCore (foldl processChunk (freshParser files) chunks)
     = parserCore (processChunk (freshParser files) (concat chunks))"
  proof (cases "chunks = []")
    case True then show ?thesis using processChunk_settled[OF fresh_settled] by simp
  next
    case False then show ?thesis by (rule foldl_processChunk_core)
  qed
  then show "completedActions (foldl processChunk (freshParser files) chunks)
     = completedActions (processChunk (freshParser files) (concat chunks))"
    by (simp add: completedActions_core)
next
  show "completedActions (foldl processChunk (freshParser files)
        [''<action typ'',
         ''e='' @ [dq] @ ''CREATE'' @ [dq] @ '' path='' @ [dq] @ ''a.txt'' @ [dq] @ ''>hel'',
         ''lo</action>''])
     = [(CREATE, ''a.txt'', ''hello'')]"
    by (simp add: parser_eval processActionTags.simps)
qed

text \<open>
  The theorem at a TEXT action cut inside its closing tag: the two fragments give the one
  action that the whole text gives.
\<close>

theorem chunk_boundary_invariance_witness:
  "completedActions (foldl processChunk (freshParser Map.empty)
      [''<action type='' @ [dq] @ ''TEXT'' @ [dq] @ ''> hi </ac'', ''tion>tail''])
     = [(TEXT, [], ''hi'')]"
proof -
  have whole: "completedActions (processChunk (freshParser Map.empty)
      (concat [''<action type='' @ [dq] @ ''TEXT'' @ [dq] @ ''> hi </ac'', ''tion>tail'']))
     = [(TEXT, [], ''hi'')]"
    by (simp add: parser_eval processActionTags.simps)
  from chunk_boundary_invariance[of Map.empty
      "[''<action type='' @ [dq] @ ''TEXT'' @ [dq] @ ''> hi </ac'', ''tion>tail'']"]
  have "completedActions (foldl processChunk (freshParser Map.empty)
      [''<action type='' @ [dq] @ ''TEXT'' @ [dq] @ ''> hi </ac'', ''tion>tail''])
     = completedActions (processChunk (freshParser Map.empty)
      (concat [''<action type='' @ [dq] @ ''TEXT'' @ [dq] @ ''> hi </ac'', ''tion>tail'']))"
    by (rule conjunct1)
  with whole show ?thesis by (simp only:)
qed








text \<open>
  C9. When no action is open and the earliest start tag in the buffer is a DELETE tag
  without a path attribute, the tag is never consumed: whatever fragments follow, they are
  only appended to the buffer, no action is opened, and no action is handed to the queue,
  neither for this tag nor for any tag after it.
\<close>

theorem delete_without_path_blocks:
  assumes "currentFileAction s = None"
    and "regexSearch (chunkBuffer s) = Some (i, DELETE, None, n)"
  shows "completedActions (foldl processChunk s chunks) = completedActions s
       \<and> currentFileAction (foldl processChunk s chunks) = None
       \<and> chunkBuffer (foldl processChunk s chunks) = chunkBuffer s @ concat chunks"
  using assms
proof (induction chunks arbitrary: s)
  case Nil
  then show ?case by simp
next
  case (Cons t ts)
  from regexSearch_append[OF Cons.prems(2), of t]
  have m: "regexSearch (chunkBuffer s @ t) = Some (i, DELETE, None, n)" .
  with Cons.prems(1) have "processStep (bufferChunk s t) = None"
    by (simp add: processStep_def bufferChunk_fields)
  then have pc: "processChunk s t = bufferChunk s t"
    by (simp add: processChunk_bufferChunk processActionTags_None)
  have "currentFileAction (processChunk s t) = None"
    "regexSearch (chunkBuffer (processChunk s t)) = Some (i, DELETE, None, n)"
    using Cons.prems m by (simp_all add: pc bufferChunk_fields)
  from Cons.IH[OF this] show ?case
    by (simp add: pc bufferChunk_fields completedActions_def)
qed

text \<open>
  The theorem on a stream: after \<open>junk<action type="DELETE"></action>\<close> a complete TEXT
  action arrives and is never handed to the queue.
\<close>

theorem delete_without_path_blocks_witness:
  "completedActions (foldl processChunk
      (processChunk (freshParser Map.empty)
         (''junk<action type='' @ [dq] @ ''DELETE'' @ [dq] @ ''></action>''))
      [''<action type='' @ [dq] @ ''TEXT'' @ [dq] @ ''>hi</ac'', ''tion>''])
     = []"
proof -
  define s where "s = processChunk (freshParser Map.empty)
         (''junk<action type='' @ [dq] @ ''DELETE'' @ [dq] @ ''></action>'')"
  have 1: "currentFileAction s = None"
    by (simp add: s_def parser_eval processActionTags.simps)
  have 2: "regexSearch (chunkBuffer s) = Some (4, DELETE, None, 22)"
    by (simp add: s_def parser_eval processActionTags.simps)
  have 3: "completedActions s = []"
    by (simp add: s_def parser_eval processActionTags.simps)
  from delete_without_path_blocks[where chunks = "[''<action type='' @ [dq] @ ''TEXT'' @ [dq] @ ''>hi</ac'', ''tion>'']", OF 1 2]
  have "completedActions (foldl processChunk s
          [''<action type='' @ [dq] @ ''TEXT'' @ [dq] @ ''>hi</ac'', ''tion>'']) = completedActions s"
    by (rule conjunct1)
  with 3 show ?thesis unfolding s_def by (simp only:)
qed


section \<open>The generation supervisor (generateProjectCode)\<close>

text \<open>
  The collaborators are the model call \<open>generateCode\<close> and the two \<open>execSync\<close> runs,
  \<open>npm run lint:fix\<close> and \<open>npm run build\<close>. Each is given by the outcome of its
  \<open>k\<close>-th call: the supervisor calls lint and build once per attempt and the model once
  before the first attempt and once per retry, so any run fixes such outcomes. A call that
  throws is \<open>None\<close> for the model and \<open>Inl\<close> of the \<open>ProcessError\<close> for \<open>execSync\<close>.
\<close>

record ProcessError =
  pe_message :: string
  pe_stdout :: string
  pe_stderr :: string

record Collaborators =
  generateCode :: "nat \<Rightarrow> string option"
  lintFix :: "nat \<Rightarrow> ProcessError + string"
  build :: "nat \<Rightarrow> ProcessError + string"

datatype Event = Generated nat | Linted nat | Built nat

text \<open>
  The variables of the retry loop. \<open>events\<close> is not a variable of the source: it records
  the calls made, in order, each with the value of \<open>retryCount\<close> at the call.
\<close>

record GenLoop =
  retryCount :: nat
  success :: bool
  lintError :: "string option"
  buildError :: "string option"
  hasActualLintErrors :: bool
  claudeResponse :: string
  events :: "Event list"

record GenerationResult =
  res_attempts :: nat
  res_success :: bool
  res_lintError :: "string option"
  res_buildError :: "string option"
  res_hasActualLintErrors :: bool
  res_events :: "Event list"

datatype GenError = ModelCallFailed nat

definition MAX_RETRIES :: nat where
  \<comment> \<open>\<open>const MAX_RETRIES = 5\<close> in \<open>generateProjectCode\<close>\<close>
  "MAX_RETRIES = 5"

definition nl :: char where
  "nl = CHR 0x0A"

definition lintStep :: "ProcessError + string \<Rightarrow> bool \<times> string" where
  \<comment> \<open>the lint step: (hasActualLintErrors, lintError) after it\<close>
  "lintStep r =
     (case r of
        Inr lintOutput \<Rightarrow> (False, [])
      | Inl typedError \<Rightarrow>
          (let lintError = pe_stdout typedError in
           if pe_stderr typedError \<noteq> [] \<and> trim (pe_stderr typedError) \<noteq> [] then
             (if lintError \<noteq> [] then (True, lintError @ [nl, nl] @ pe_stderr typedError)
              else (True, pe_stderr typedError))
           else (True, lintError)))"

definition buildFailureText :: "ProcessError \<Rightarrow> string" where
  \<comment> \<open>\<open>buildError\<close> as the outer catch of the build step leaves it\<close>
  "buildFailureText e =
     (let b0 = pe_message e;
          b1 = (if pe_stdout e \<noteq> [] then ''Build output:'' @ [nl] @ pe_stdout e @ [nl, nl] else b0)
      in if pe_stderr e \<noteq> [] then b1 @ ''Error details:'' @ [nl] @ pe_stderr e @ [nl, nl] else b1)"

text \<open>
  The loop \<open>while (retryCount <= MAX_RETRIES)\<close>. An attempt lints, then builds whatever the
  lint step found; a build that succeeds ends the loop, a build that fails starts a retry
  while \<open>retryCount < MAX_RETRIES\<close> and ends the loop otherwise. A model call that throws
  leaves the function with the exception (\<open>Inl\<close>).
\<close>

function attemptLoop :: "Collaborators \<Rightarrow> GenLoop \<Rightarrow> GenError + GenLoop" where
  "attemptLoop env st =
     (if retryCount st \<le> MAX_RETRIES then
        (let (hasErr, lintErr) = lintStep (lintFix env (retryCount st));
             st1 = st\<lparr>claudeResponse := [], lintError := Some lintErr,
                       hasActualLintErrors := hasErr,
                       events := events st @ [Linted (retryCount st), Built (retryCount st)]\<rparr>
         in case build env (retryCount st) of
              Inr buildOutput \<Rightarrow> Inr (st1\<lparr>buildError := Some buildOutput, success := True\<rparr>)
            | Inl e \<Rightarrow>
                (let st2 = st1\<lparr>buildError := Some (buildFailureText e)\<rparr> in
                 if retryCount st < MAX_RETRIES then
                   (case generateCode env (retryCount st + 1) of
                      None \<Rightarrow> Inl (ModelCallFailed (retryCount st + 1))
                    | Some response \<Rightarrow>
                        attemptLoop env
                          (st2\<lparr>retryCount := retryCount st + 1, claudeResponse := response,
                                events := events st2 @ [Generated (retryCount st + 1)]\<rparr>))
                 else Inr st2))
      else Inr st)"
  by pat_completeness auto
termination
  by (relation "measure (\<lambda>(env, st). Suc MAX_RETRIES - retryCount st)") auto

declare attemptLoop.simps [simp del]

definition generateProjectCode :: "Collaborators \<Rightarrow> GenError + GenerationResult" where
  "generateProjectCode env =
     (case generateCode env 0 of
        None \<Rightarrow> Inl (ModelCallFailed 0)
      | Some response \<Rightarrow>
          (case attemptLoop env
                  \<lparr>retryCount = 0, success = False, lintError = None, buildError = None,
                   hasActualLintErrors = False, claudeResponse = response,
                   events = [Generated 0]\<rparr> of
             Inl err \<Rightarrow> Inl err
           | Inr st \<Rightarrow>
               Inr \<lparr>res_attempts = retryCount st + 1, res_success = success st,
                    res_lintError = lintError st, res_buildError = buildError st,
                    res_hasActualLintErrors = hasActualLintErrors st,
                    res_events = events st\<rparr>))"

fun isRetry :: "Event \<Rightarrow> bool" where
  "isRetry (Generated k) = (0 < k)"
| "isRetry (Linted k) = False"
| "isRetry (Built k) = False"

definition retriesPerformed :: "Event list \<Rightarrow> nat" where
  \<comment> \<open>the number of model calls made for a retry\<close>
  "retriesPerformed evs = length (filter isRetry evs)"



subsection \<open>Facts about the retry loop\<close>

lemma attemptLoop_build_ok:
  assumes "retryCount st \<le> MAX_RETRIES" "build env (retryCount st) = Inr out"
  shows "\<exists>st'. attemptLoop env st = Inr st' \<and> success st' \<and> retryCount st' = retryCount st
           \<and> events st' = events st @ [Linted (retryCount st), Built (retryCount st)]
           \<and> hasActualLintErrors st' = fst (lintStep (lintFix env (retryCount st)))
           \<and> lintError st' = Some (snd (lintStep (lintFix env (retryCount st))))
           \<and> buildError st' = Some out"
  using assms by (subst attemptLoop.simps) (simp add: Let_def split: prod.splits)

lemma attemptLoop_build_fail_retry:
  assumes "retryCount st < MAX_RETRIES" "build env (retryCount st) = Inl e"
    "generateCode env (retryCount st + 1) = Some response"
  shows "\<exists>st2. attemptLoop env st = attemptLoop env st2 \<and> success st2 = success st
           \<and> retryCount st2 = retryCount st + 1
           \<and> events st2 = events st @ [Linted (retryCount st), Built (retryCount st),
                                        Generated (retryCount st + 1)]"
  using assms
  apply (subst attemptLoop.simps)
  apply (simp add: Let_def split: prod.splits)
  apply (intro allI impI)
  apply (rule exI)
  apply (intro conjI)
     apply (rule refl)
    apply simp_all
  done

lemma attemptLoop_model_throws:
  assumes "retryCount st < MAX_RETRIES" "build env (retryCount st) = Inl e"
    "generateCode env (retryCount st + 1) = None"
  shows "attemptLoop env st = Inl (ModelCallFailed (retryCount st + 1))"
  using assms by (subst attemptLoop.simps) (simp add: Let_def split: prod.splits)

lemma attemptLoop_build_fail_last:
  assumes "retryCount st = MAX_RETRIES" "build env (retryCount st) = Inl e"
  shows "\<exists>st'. attemptLoop env st = Inr st' \<and> success st' = success st
           \<and> retryCount st' = retryCount st
           \<and> events st' = events st @ [Linted (retryCount st), Built (retryCount st)]
           \<and> hasActualLintErrors st' = fst (lintStep (lintFix env (retryCount st)))
           \<and> lintError st' = Some (snd (lintStep (lintFix env (retryCount st))))
           \<and> buildError st' = Some (buildFailureText e)"
  using assms by (subst attemptLoop.simps) (simp add: Let_def split: prod.splits)

lemma attemptLoop_counts:
  "attemptLoop env st = Inr st' \<Longrightarrow> retryCount st \<le> MAX_RETRIES \<Longrightarrow>
   retryCount st' \<le> MAX_RETRIES \<and> retryCount st \<le> retryCount st'
   \<and> retriesPerformed (events st') = retriesPerformed (events st) + (retryCount st' - retryCount st)"
proof (induction n \<equiv> "MAX_RETRIES - retryCount st" arbitrary: st)
  case 0
  then have eq: "retryCount st = MAX_RETRIES" by simp
  show ?case
  proof (cases "build env (retryCount st)")
    case (Inr out)
    from attemptLoop_build_ok[OF "0.prems"(2) Inr] "0.prems" show ?thesis
      by (auto simp: retriesPerformed_def)
  next
    case (Inl e)
    from attemptLoop_build_fail_last[OF eq Inl] "0.prems" show ?thesis
      by (auto simp: retriesPerformed_def)
  qed
next
  case (Suc n)
  then have lt: "retryCount st < MAX_RETRIES" by simp
  show ?case
  proof (cases "build env (retryCount st)")
    case (Inr out)
    from attemptLoop_build_ok[OF Suc.prems(2) Inr] Suc.prems show ?thesis
      by (auto simp: retriesPerformed_def)
  next
    case (Inl e)
    show ?thesis
    proof (cases "generateCode env (retryCount st + 1)")
      case None
      from attemptLoop_model_throws[OF lt Inl None] Suc.prems show ?thesis by simp
    next
      case (Some response)
      from attemptLoop_build_fail_retry[OF lt Inl Some] obtain st2 where
        st2: "attemptLoop env st = attemptLoop env st2" "retryCount st2 = retryCount st + 1"
          "events st2 = events st @ [Linted (retryCount st), Built (retryCount st),
                                        Generated (retryCount st + 1)]" by blast
      have "n = MAX_RETRIES - retryCount st2" using Suc.hyps(2) st2(2) by simp
      from Suc.hyps(1)[OF this] st2(1) Suc.prems(1) st2(2) lt
      have "retryCount st' \<le> MAX_RETRIES \<and> retryCount st2 \<le> retryCount st'
            \<and> retriesPerformed (events st') = retriesPerformed (events st2) + (retryCount st' - retryCount st2)"
        by simp
      then show ?thesis unfolding st2(2,3) by (auto simp: retriesPerformed_def)
    qed
  qed
qed

lemma attemptLoop_all_fail:
  assumes "retryCount st \<le> MAX_RETRIES" "\<not> success st"
    and "\<forall>k. retryCount st \<le> k \<and> k \<le> MAX_RETRIES \<longrightarrow> isl (build env k)"
    and "\<forall>k. retryCount st < k \<and> k \<le> MAX_RETRIES \<longrightarrow> generateCode env k \<noteq> None"
  shows "\<exists>st'. attemptLoop env st = Inr st' \<and> \<not> success st' \<and> retryCount st' = MAX_RETRIES"
  using assms
proof (induction n \<equiv> "MAX_RETRIES - retryCount st" arbitrary: st)
  case 0
  then have eq: "retryCount st = MAX_RETRIES" by simp
  with "0.prems"(3) obtain e where "build env (retryCount st) = Inl e"
    by (cases "build env (retryCount st)") auto
  from attemptLoop_build_fail_last[OF eq this] "0.prems"(2) eq show ?case by auto
next
  case (Suc n)
  then have lt: "retryCount st < MAX_RETRIES" by simp
  with Suc.prems(3) obtain e where e: "build env (retryCount st) = Inl e"
    by (cases "build env (retryCount st)") auto
  from lt Suc.prems(4) obtain response where r: "generateCode env (retryCount st + 1) = Some response"
    by (cases "generateCode env (retryCount st + 1)") auto
  from attemptLoop_build_fail_retry[OF lt e r] obtain st2 where
    st2: "attemptLoop env st = attemptLoop env st2" "retryCount st2 = retryCount st + 1"
       "success st2 = success st" by blast
  have "n = MAX_RETRIES - retryCount st2" using Suc.hyps(2) st2(2) by simp
  from Suc.hyps(1)[OF this] st2 Suc.prems lt show ?case by simp
qed

lemma attemptLoop_first_success:
  assumes "retryCount st \<le> n" "n \<le> MAX_RETRIES"
    and "\<forall>k. retryCount st \<le> k \<and> k < n \<longrightarrow> isl (build env k)"
    and "\<not> isl (build env n)"
    and "\<forall>k. retryCount st < k \<and> k \<le> n \<longrightarrow> generateCode env k \<noteq> None"
  shows "\<exists>st'. attemptLoop env st = Inr st' \<and> success st' \<and> retryCount st' = n
           \<and> hasActualLintErrors st' = fst (lintStep (lintFix env n))
           \<and> lintError st' = Some (snd (lintStep (lintFix env n)))"
  using assms
proof (induction d \<equiv> "n - retryCount st" arbitrary: st)
  case 0
  then have eq: "retryCount st = n" by simp
  with "0.prems"(4) obtain out where "build env (retryCount st) = Inr out"
    by (cases "build env (retryCount st)") auto
  from attemptLoop_build_ok[OF _ this] "0.prems"(2) eq show ?case by auto
next
  case (Suc d)
  then have lt: "retryCount st < n" by simp
  with Suc.prems(3) obtain e where e: "build env (retryCount st) = Inl e"
    by (cases "build env (retryCount st)") auto
  from lt Suc.prems(5) obtain response where r: "generateCode env (retryCount st + 1) = Some response"
    by (cases "generateCode env (retryCount st + 1)") auto
  from lt Suc.prems(2) have lt': "retryCount st < MAX_RETRIES" by simp
  from attemptLoop_build_fail_retry[OF lt' e r] obtain st2 where
    st2: "attemptLoop env st = attemptLoop env st2" "retryCount st2 = retryCount st + 1" by blast
  have "d = n - retryCount st2" using Suc.hyps(2) st2(2) by simp
  from Suc.hyps(1)[OF this] st2 Suc.prems lt show ?case by simp
qed


lemma attemptLoop_lint_independent:
  assumes "retryCount st = retryCount st2" "success st = success st2"
  shows "rel_sum (=) (\<lambda>a b. retryCount a = retryCount b \<and> success a = success b)
           (attemptLoop env st) (attemptLoop (env\<lparr>lintFix := l\<rparr>) st2)"
  using assms
proof (induction n \<equiv> "Suc MAX_RETRIES - retryCount st" arbitrary: st st2)
  case 0
  then have "\<not> retryCount st \<le> MAX_RETRIES" "\<not> retryCount st2 \<le> MAX_RETRIES" by simp_all
  then have "attemptLoop env st = Inr st" "attemptLoop (env\<lparr>lintFix := l\<rparr>) st2 = Inr st2"
    by (subst attemptLoop.simps, simp)+
  with "0.prems" show ?case by simp
next
  case (Suc n)
  then have le: "retryCount st \<le> MAX_RETRIES" "retryCount st2 \<le> MAX_RETRIES" by simp_all
  let ?env' = "env\<lparr>lintFix := l\<rparr>"
  have b: "build ?env' (retryCount st2) = build env (retryCount st)"
    "generateCode ?env' (retryCount st2 + 1) = generateCode env (retryCount st + 1)"
    using Suc.prems by simp_all
  show ?case
  proof (cases "build env (retryCount st)")
    case (Inr out)
    from attemptLoop_build_ok[OF le(1) Inr] attemptLoop_build_ok[OF le(2) Inr[folded b(1)]]
    show ?thesis using Suc.prems by auto
  next
    case (Inl e)
    show ?thesis
    proof (cases "retryCount st < MAX_RETRIES")
      case False
      with le have eq: "retryCount st = MAX_RETRIES" "retryCount st2 = MAX_RETRIES"
        using Suc.prems by simp_all
      from attemptLoop_build_fail_last[OF eq(1) Inl]
        attemptLoop_build_fail_last[OF eq(2) Inl[folded b(1)]]
      show ?thesis using Suc.prems by auto
    next
      case True
      then have lt: "retryCount st < MAX_RETRIES" "retryCount st2 < MAX_RETRIES"
        using Suc.prems by simp_all
      show ?thesis
      proof (cases "generateCode env (retryCount st + 1)")
        case None
        from attemptLoop_model_throws[OF lt(1) Inl None]
          attemptLoop_model_throws[OF lt(2) Inl[folded b(1)] None[folded b(2)]]
        show ?thesis using Suc.prems by simp
      next
        case (Some response)
        from attemptLoop_build_fail_retry[OF lt(1) Inl Some] obtain s1 where
          s1: "attemptLoop env st = attemptLoop env s1" "success s1 = success st"
              "retryCount s1 = retryCount st + 1" by blast
        from attemptLoop_build_fail_retry[OF lt(2) Inl[folded b(1)] Some[folded b(2)]] obtain s2 where
          s2: "attemptLoop ?env' st2 = attemptLoop ?env' s2" "success s2 = success st2"
              "retryCount s2 = retryCount st2 + 1" by blast
        have "n = Suc MAX_RETRIES - retryCount s1" using Suc.hyps(2) s1(3) by simp
        from Suc.hyps(1)[OF this, of s2] s1 s2 Suc.prems show ?thesis by simp
      qed
    qed
  qed
qed

subsection \<open>Claims about the supervisor\<close>

definition failingBuild :: "ProcessError + string" where
  "failingBuild = Inl \<lparr>pe_message = ''Command failed: npm run build'', pe_stdout = [], pe_stderr = ''Type error''\<rparr>"

text \<open>
  C4, as stated: five consecutive build failures exhaust the retries, and the result then
  has \<open>success = false\<close> and \<open>attempts = 6\<close>. In the source the fifth failure starts the
  fifth retry: when the builds of attempts 1 to 5 fail and the build of attempt 6 succeeds,
  five retries have been performed and the result has \<open>success = true\<close> and
  \<open>attempts = 6\<close>.
\<close>

theorem five_failures_then_success_counterexample:
  "map_sum id (\<lambda>r. (res_success r, res_attempts r, retriesPerformed (res_events r)))
     (generateProjectCode
        \<lparr>generateCode = (\<lambda>k. Some ''response''), lintFix = (\<lambda>k. Inr []),
         build = (\<lambda>k. if k < 5 then failingBuild else Inr ''compiled'')\<rparr>)
   = Inr (True, 6, 5)"
  by (simp add: generateProjectCode_def attemptLoop.simps lintStep_def failingBuild_def
                MAX_RETRIES_def Let_def retriesPerformed_def)

text \<open>
  C4, amended. The supervisor retries up to \<open>MAX_RETRIES = 5\<close> rounds after the first
  attempt and stops at the first build that succeeds. Whenever it returns a result, the
  attempts it reports are the retries performed plus one, and at most six. If the builds of
  attempts \<open>1..n\<close> fail and the build of attempt \<open>n + 1\<close> succeeds (\<open>n \<le> 5\<close>), the result has
  \<open>success = true\<close> and \<open>attempts = n + 1\<close>. If the first build and the builds of all five
  retries fail, six failures in all, the result is returned, not thrown, with
  \<open>success = false\<close> and \<open>attempts = 6\<close>. (The model calls are assumed not to throw in the
  last two parts.)
\<close>

theorem supervisor_attempts:
  "MAX_RETRIES = 5
   \<and> (\<forall>r. generateProjectCode env = Inr r \<longrightarrow>
          res_attempts r = retriesPerformed (res_events r) + 1 \<and> res_attempts r \<le> MAX_RETRIES + 1)
   \<and> (n \<le> MAX_RETRIES \<and> (\<forall>k\<le>n. generateCode env k \<noteq> None)
        \<and> (\<forall>k<n. isl (build env k)) \<and> \<not> isl (build env n)
        \<longrightarrow> (\<exists>r. generateProjectCode env = Inr r \<and> res_success r \<and> res_attempts r = n + 1))
   \<and> ((\<forall>k\<le>MAX_RETRIES. generateCode env k \<noteq> None \<and> isl (build env k))
        \<longrightarrow> (\<exists>r. generateProjectCode env = Inr r \<and> \<not> res_success r \<and> res_attempts r = 6))"
proof (intro conjI allI impI)
  show "MAX_RETRIES = 5" by (simp add: MAX_RETRIES_def)
next
  fix r assume a: "generateProjectCode env = Inr r"
  then obtain response st where g: "generateCode env 0 = Some response"
    and l: "attemptLoop env \<lparr>retryCount = 0, success = False, lintError = None, buildError = None,
                   hasActualLintErrors = False, claudeResponse = response,
                   events = [Generated 0]\<rparr> = Inr st"
    and r: "res_attempts r = retryCount st + 1" "res_events r = events st"
    unfolding generateProjectCode_def by (auto split: option.splits sum.splits)
  from attemptLoop_counts[OF l] r
  show "res_attempts r = retriesPerformed (res_events r) + 1" "res_attempts r \<le> MAX_RETRIES + 1"
    by (simp_all add: retriesPerformed_def)
next
  assume a: "n \<le> MAX_RETRIES \<and> (\<forall>k\<le>n. generateCode env k \<noteq> None)
        \<and> (\<forall>k<n. isl (build env k)) \<and> \<not> isl (build env n)"
  then obtain response where g: "generateCode env 0 = Some response" by auto
  define st0 where "st0 = \<lparr>retryCount = 0, success = False, lintError = None, buildError = None,
                   hasActualLintErrors = False, claudeResponse = response,
                   events = [Generated 0]\<rparr>"
  from a have "\<exists>st'. attemptLoop env st0 = Inr st' \<and> success st' \<and> retryCount st' = n
           \<and> hasActualLintErrors st' = fst (lintStep (lintFix env n))
           \<and> lintError st' = Some (snd (lintStep (lintFix env n)))"
    by (intro attemptLoop_first_success) (simp_all add: st0_def)
  then show "\<exists>r. generateProjectCode env = Inr r \<and> res_success r \<and> res_attempts r = n + 1"
    unfolding generateProjectCode_def g st0_def by auto
next
  assume a: "\<forall>k\<le>MAX_RETRIES. generateCode env k \<noteq> None \<and> isl (build env k)"
  then obtain response where g: "generateCode env 0 = Some response" by auto
  define st0 where "st0 = \<lparr>retryCount = 0, success = False, lintError = None, buildError = None,
                   hasActualLintErrors = False, claudeResponse = response,
                   events = [Generated 0]\<rparr>"
  from a have "\<exists>st'. attemptLoop env st0 = Inr st' \<and> \<not> success st' \<and> retryCount st' = MAX_RETRIES"
    by (intro attemptLoop_all_fail) (simp_all add: st0_def)
  then show "\<exists>r. generateProjectCode env = Inr r \<and> \<not> res_success r \<and> res_attempts r = 6"
    unfolding generateProjectCode_def g st0_def by (auto simp: MAX_RETRIES_def)
qed

text \<open>
  The theorem at two runs: every build fails, and the first two builds fail and the third
  succeeds.
\<close>

theorem supervisor_attempts_witness:
  "(\<exists>r. generateProjectCode
           \<lparr>generateCode = (\<lambda>k. Some ''response''), lintFix = (\<lambda>k. Inr []),
            build = (\<lambda>k. failingBuild)\<rparr> = Inr r
        \<and> \<not> res_success r \<and> res_attempts r = 6)
   \<and> (\<exists>r. generateProjectCode
           \<lparr>generateCode = (\<lambda>k. Some ''response''), lintFix = (\<lambda>k. Inr []),
            build = (\<lambda>k. if k < 2 then failingBuild else Inr ''done'')\<rparr> = Inr r
        \<and> res_success r \<and> res_attempts r = 3)"
proof
  show "\<exists>r. generateProjectCode
           \<lparr>generateCode = (\<lambda>k. Some ''response''), lintFix = (\<lambda>k. Inr []),
            build = (\<lambda>k. failingBuild)\<rparr> = Inr r
        \<and> \<not> res_success r \<and> res_attempts r = 6"
    using supervisor_attempts[of "\<lparr>generateCode = (\<lambda>k. Some ''response''), lintFix = (\<lambda>k. Inr []),
            build = (\<lambda>k. failingBuild)\<rparr>" 0]
    by (simp add: failingBuild_def)
next
  show "\<exists>r. generateProjectCode
           \<lparr>generateCode = (\<lambda>k. Some ''response''), lintFix = (\<lambda>k. Inr []),
            build = (\<lambda>k. if k < 2 then failingBuild else Inr ''done'')\<rparr> = Inr r
        \<and> res_success r \<and> res_attempts r = 3"
    using supervisor_attempts[of "\<lparr>generateCode = (\<lambda>k. Some ''response''), lintFix = (\<lambda>k. Inr []),
            build = (\<lambda>k. if k < 2 then failingBuild else Inr ''done'')\<rparr>" 2]
    by (simp add: failingBuild_def MAX_RETRIES_def)
qed

text \<open>
  C8, as stated: a failing lint step triggers another retry round, and an attempt with
  unresolved lint errors does not end the loop as a success. In the source the build runs
  whatever the lint step found, and a build that succeeds ends the loop: with a failing
  lint and a succeeding build the first attempt is the last, and the result is a success
  that carries the lint errors.
\<close>

definition failingLint :: "ProcessError + string" where
  "failingLint = Inl \<lparr>pe_message = ''Command failed: npm run lint:fix'',
                      pe_stdout = ''1 error'', pe_stderr = []\<rparr>"

theorem lint_failure_counterexample:
  "generateProjectCode
      \<lparr>generateCode = (\<lambda>k. Some ''response''), lintFix = (\<lambda>k. failingLint),
       build = (\<lambda>k. Inr ''compiled'')\<rparr>
   = Inr \<lparr>res_attempts = 1, res_success = True, res_lintError = Some ''1 error'',
          res_buildError = Some ''compiled'', res_hasActualLintErrors = True,
          res_events = [Generated 0, Linted 0, Built 0]\<rparr>"
  by (simp add: generateProjectCode_def attemptLoop.simps lintStep_def failingLint_def
                MAX_RETRIES_def Let_def)

text \<open>
  C8, amended: a failing lint step is not fatal and does not decide whether the loop goes
  on. The attempt still builds; when that build succeeds the loop ends as a success with
  \<open>hasActualLintErrors = true\<close> and with \<open>lintError\<close> holding what the lint process wrote:
  its standard output, followed after an empty line by its standard error when that is not
  blank. For given outcomes of the builds and the model calls, the reported success and
  attempts are the same whatever the lint steps return, so a retry round is triggered by a
  failing build only.
\<close>

theorem lint_failure_nonfatal:
  "(n \<le> MAX_RETRIES \<and> (\<forall>k\<le>n. generateCode env k \<noteq> None) \<and> (\<forall>k<n. isl (build env k))
      \<and> \<not> isl (build env n) \<and> lintFix env n = Inl e
    \<longrightarrow> (\<exists>r. generateProjectCode env = Inr r \<and> res_success r \<and> res_attempts r = n + 1
              \<and> res_hasActualLintErrors r
              \<and> res_lintError r
                  = Some (if trim (pe_stderr e) = [] then pe_stdout e
                          else if pe_stdout e = [] then pe_stderr e
                          else pe_stdout e @ [nl, nl] @ pe_stderr e)))
   \<and> rel_sum (=) (\<lambda>a b. res_success a = res_success b \<and> res_attempts a = res_attempts b)
        (generateProjectCode env) (generateProjectCode (env\<lparr>lintFix := l\<rparr>))"
proof (intro conjI impI)
  assume a: "n \<le> MAX_RETRIES \<and> (\<forall>k\<le>n. generateCode env k \<noteq> None) \<and> (\<forall>k<n. isl (build env k))
      \<and> \<not> isl (build env n) \<and> lintFix env n = Inl e"
  then obtain response where g: "generateCode env 0 = Some response" by auto
  define st0 where "st0 = \<lparr>retryCount = 0, success = False, lintError = None, buildError = None,
                   hasActualLintErrors = False, claudeResponse = response,
                   events = [Generated 0]\<rparr>"
  from a have "\<exists>st'. attemptLoop env st0 = Inr st' \<and> success st' \<and> retryCount st' = n
           \<and> hasActualLintErrors st' = fst (lintStep (lintFix env n))
           \<and> lintError st' = Some (snd (lintStep (lintFix env n)))"
    by (intro attemptLoop_first_success) (simp_all add: st0_def)
  moreover from a have "fst (lintStep (lintFix env n))"
    by (auto simp: lintStep_def Let_def)
  moreover have "trim [] = []" by (simp add: trim_def)
  then have "trim (pe_stderr e) \<noteq> [] \<Longrightarrow> pe_stderr e \<noteq> []" by auto
  with a have "snd (lintStep (lintFix env n))
      = (if trim (pe_stderr e) = [] then pe_stdout e
         else if pe_stdout e = [] then pe_stderr e
         else pe_stdout e @ [nl, nl] @ pe_stderr e)"
    by (auto simp: lintStep_def Let_def)
  ultimately show "\<exists>r. generateProjectCode env = Inr r \<and> res_success r \<and> res_attempts r = n + 1
              \<and> res_hasActualLintErrors r
              \<and> res_lintError r
                  = Some (if trim (pe_stderr e) = [] then pe_stdout e
                          else if pe_stdout e = [] then pe_stderr e
                          else pe_stdout e @ [nl, nl] @ pe_stderr e)"
    unfolding generateProjectCode_def g st0_def by auto
next
  show "rel_sum (=) (\<lambda>a b. res_success a = res_success b \<and> res_attempts a = res_attempts b)
        (generateProjectCode env) (generateProjectCode (env\<lparr>lintFix := l\<rparr>))"
  proof (cases "generateCode env 0")
    case None
    then show ?thesis by (simp add: generateProjectCode_def)
  next
    case (Some response)
    define st0 where "st0 = \<lparr>retryCount = 0, success = False, lintError = None, buildError = None,
                   hasActualLintErrors = False, claudeResponse = response,
                   events = [Generated 0]\<rparr>"
    have "rel_sum (=) (\<lambda>a b. retryCount a = retryCount b \<and> success a = success b)
           (attemptLoop env st0) (attemptLoop (env\<lparr>lintFix := l\<rparr>) st0)"
      by (rule attemptLoop_lint_independent) simp_all
    then show ?thesis
      unfolding generateProjectCode_def st0_def using Some
      by (auto simp: rel_sum.simps)
  qed
qed

text \<open>
  The theorem at a run whose first build fails and whose second build succeeds, with a
  lint step that fails each time.
\<close>

theorem lint_failure_nonfatal_witness:
  "\<exists>r. generateProjectCode
          \<lparr>generateCode = (\<lambda>k. Some ''response''), lintFix = (\<lambda>k. failingLint),
           build = (\<lambda>k. if k < 1 then failingBuild else Inr ''compiled'')\<rparr> = Inr r
       \<and> res_success r \<and> res_attempts r = 2 \<and> res_hasActualLintErrors r
       \<and> res_lintError r = Some ''1 error''"
  using lint_failure_nonfatal[where n = 1 and l = "\<lambda>k. Inr []"
          and e = "\<lparr>pe_message = ''Command failed: npm run lint:fix'',
                      pe_stdout = ''1 error'', pe_stderr = []\<rparr>"
          and env = "\<lparr>generateCode = (\<lambda>k. Some ''response''),
           lintFix = (\<lambda>k. failingLint),
           build = (\<lambda>k. if k < 1 then failingBuild else Inr ''compiled'')\<rparr>"]
  by (simp add: failingBuild_def failingLint_def MAX_RETRIES_def numeral_2_eq_2 trim_def)


section \<open>Project paths and the file mutator\<close>

subsection \<open>Node's path functions (POSIX)\<close>

text \<open>
  \<open>path.isAbsolute\<close>, \<open>path.normalize\<close>, \<open>path.join\<close> and \<open>path.dirname\<close> belong to Node,
  not to the repository. They are modelled as Node's POSIX implementation behaves:
  \<open>normalize\<close> works on the segments between slashes, drops empty and \<open>.\<close> segments, lets
  \<open>..\<close> remove the segment before it, and keeps a leading \<open>..\<close> only for a relative path.
\<close>

fun splitOn :: "char \<Rightarrow> string \<Rightarrow> string list" where
  "splitOn c [] = [[]]"
| "splitOn c (x # xs) =
     (if x = c then [] # splitOn c xs
      else (case splitOn c xs of [] \<Rightarrow> [[x]] | s # ss \<Rightarrow> (x # s) # ss))"

fun joinSlash :: "string list \<Rightarrow> string" where
  "joinSlash [] = []"
| "joinSlash [s] = s"
| "joinSlash (s # t # ss) = s @ ''/'' @ joinSlash (t # ss)"

fun normalizeSegs :: "bool \<Rightarrow> string list \<Rightarrow> string list \<Rightarrow> string list" where
  \<comment> \<open>\<open>normalizeString\<close> on segments; \<open>res\<close> holds the segments kept so far, last first\<close>
  "normalizeSegs allowAboveRoot res [] = rev res"
| "normalizeSegs allowAboveRoot res (s # ss) =
     (if s = [] \<or> s = ''.'' then normalizeSegs allowAboveRoot res ss
      else if s = ''..'' then
        (case res of
           r # rs \<Rightarrow>
             if r = ''..'' then
               (if allowAboveRoot then normalizeSegs allowAboveRoot (''..'' # res) ss
                else normalizeSegs allowAboveRoot res ss)
             else normalizeSegs allowAboveRoot rs ss
         | [] \<Rightarrow>
             if allowAboveRoot then normalizeSegs allowAboveRoot [''..''] ss
             else normalizeSegs allowAboveRoot [] ss)
      else normalizeSegs allowAboveRoot (s # res) ss)"

definition isAbsolute :: "string \<Rightarrow> bool" where
  "isAbsolute p = (case p of [] \<Rightarrow> False | c # _ \<Rightarrow> c = CHR ''/'')"

definition normalize :: "string \<Rightarrow> string" where
  "normalize p =
     (if p = [] then ''.''
      else
        (let trailingSeparator = (last p = CHR ''/'');
             r = joinSlash (normalizeSegs (\<not> isAbsolute p) [] (splitOn CHR ''/'' p))
         in if r = [] then (if isAbsolute p then ''/'' else if trailingSeparator then ''./'' else ''.'')
            else (let r' = (if trailingSeparator then r @ ''/'' else r)
                  in if isAbsolute p then CHR ''/'' # r' else r')))"

definition pathJoin :: "string \<Rightarrow> string \<Rightarrow> string" where
  \<comment> \<open>\<open>path.join(a, b)\<close>\<close>
  "pathJoin a b =
     (if a = [] \<and> b = [] then ''.''
      else if a = [] then normalize b
      else if b = [] then normalize a
      else normalize (a @ ''/'' @ b))"

definition dirname :: "string \<Rightarrow> string" where
  \<comment> \<open>\<open>path.dirname(p)\<close>: trailing slashes and the last segment are cut off\<close>
  "dirname p =
     (case p of
        [] \<Rightarrow> ''.''
      | c # cs \<Rightarrow>
          (let r = dropWhile (\<lambda>x. x \<noteq> CHR ''/'') (dropWhile (\<lambda>x. x = CHR ''/'') (rev cs))
           in if r = [] then (if c = CHR ''/'' then ''/'' else ''.'')
              else if c = CHR ''/'' \<and> length r = 1 then ''//''
              else c # rev (tl r)))"

definition pathSegments :: "string \<Rightarrow> string list" where
  \<comment> \<open>the names along a path\<close>
  "pathSegments p = filter (\<lambda>s. s \<noteq> []) (splitOn CHR ''/'' p)"

subsection \<open>resolveProjectPath\<close>

datatype PathError = OutsideProject | ParentAccess

definition resolveProjectPath :: "string \<Rightarrow> string \<Rightarrow> PathError + string" where
  "resolveProjectPath projectDir relativePath =
     (if isAbsolute relativePath then
        (if \<not> prefix projectDir relativePath then Inl OutsideProject else Inr relativePath)
      else
        (let normalizedPath = normalize relativePath in
         if prefix ''..'' normalizedPath then Inl ParentAccess
         else Inr (pathJoin projectDir normalizedPath)))"

definition pathChar :: "char \<Rightarrow> bool" where
  \<comment> \<open>the class \<open>[a-zA-Z0-9/._-]\<close>\<close>
  "pathChar c =
     (let n = (of_char c :: nat) in
      (97 \<le> n \<and> n \<le> 122) \<or> (65 \<le> n \<and> n \<le> 90) \<or> (48 \<le> n \<and> n \<le> 57)
      \<or> c = CHR ''/'' \<or> c = CHR ''.'' \<or> c = CHR ''_'' \<or> c = CHR ''-'')"

definition cleanFilePath :: "string \<Rightarrow> string" where
  \<comment> \<open>\<open>filePath.replace(/^[^a-zA-Z0-9/._-]+/, '').trim()\<close>, the first statement of
      \<open>applyFileChange\<close>\<close>
  "cleanFilePath filePath = trim (dropWhile (\<lambda>c. \<not> pathChar c) filePath)"

definition insideProject :: "string \<Rightarrow> string \<Rightarrow> bool" where
  \<comment> \<open>\<open>full\<close> names a location in or below the directory \<open>projectDir\<close>: its names start
      with the names of the directory and none of them is \<open>..\<close>\<close>
  "insideProject projectDir full =
     (prefix (pathSegments (normalize projectDir)) (pathSegments full)
      \<and> ''..'' \<notin> set (pathSegments full))"



subsection \<open>The file system and applyFileChange\<close>

text \<open>
  The file system is a tree of directories and files. A location is the list of names
  from the root to a node; \<open>nodes\<close> gives the node at a location, and a node counts only
  when every location above it is a directory (\<open>nodeAt\<close>). The operating system resolves
  a path name by name, from the root or, for a relative path, from the working directory
  \<open>cwd\<close>: each name is looked up in the directory reached so far, \<open>..\<close> goes to the
  directory above, an empty name or \<open>.\<close> stays where it is, and every name but the last
  must lead to a directory that exists (\<open>walk\<close>, \<open>resolve\<close>). Symbolic links are not
  modelled. \<open>oplog\<close> records the calls that change the file system, in order, with the
  locations they change. A failing call carries the name of its error code; which code a
  system reports for a path that ends in a slash varies and nothing below depends on it.
\<close>

datatype Node = File string | Dir

datatype FsOp = MkDir "string list" | WriteFile "string list" string | Unlink "string list"

record FileSystem =
  nodes :: "string list \<rightharpoonup> Node"
  cwd :: "string list"
  oplog :: "FsOp list"

datatype ApplyError = PathRejected PathError | FsFailure string

definition nodeAt :: "FileSystem \<Rightarrow> string list \<Rightarrow> Node option" where
  "nodeAt fs loc =
     (if loc = [] then Some Dir
      else if list_all (\<lambda>k. nodes fs (take k loc) = Some Dir) [1..<length loc]
           then nodes fs loc else None)"

fun walk :: "FileSystem \<Rightarrow> string list \<Rightarrow> string list \<Rightarrow> ApplyError + string list" where
  "walk fs loc [] = Inr loc"
| "walk fs loc (name # names) =
     (case nodeAt fs loc of
        None \<Rightarrow> Inl (FsFailure ''ENOENT'')
      | Some (File c) \<Rightarrow> Inl (FsFailure ''ENOTDIR'')
      | Some Dir \<Rightarrow>
          if name = [] \<or> name = ''.'' then walk fs loc names
          else if name = ''..'' then walk fs (butlast loc) names
          else walk fs (loc @ [name]) names)"

definition startOf :: "FileSystem \<Rightarrow> string \<Rightarrow> string list" where
  \<comment> \<open>where the resolution of a path starts\<close>
  "startOf fs p = (if isAbsolute p then [] else cwd fs)"

definition resolve :: "FileSystem \<Rightarrow> string \<Rightarrow> ApplyError + string list" where
  \<comment> \<open>the location a path leads to; the node there need not exist\<close>
  "resolve fs p =
     (if p = [] then Inl (FsFailure ''ENOENT'')
      else walk fs (startOf fs p) (splitOn CHR ''/'' p))"

definition pathExists :: "FileSystem \<Rightarrow> string \<Rightarrow> bool" where
  \<comment> \<open>\<open>fs.pathExists\<close>: false when the path cannot be resolved\<close>
  "pathExists fs p = (case resolve fs p of Inl e \<Rightarrow> False | Inr loc \<Rightarrow> nodeAt fs loc \<noteq> None)"

fun mkdirp :: "FileSystem \<Rightarrow> string list \<Rightarrow> string list \<Rightarrow> ApplyError + FileSystem" where
  \<comment> \<open>the recursive \<open>mkdir\<close>: the path is walked and every directory that is missing on
      the way is made\<close>
  "mkdirp fs loc [] =
     (case nodeAt fs loc of
        Some Dir \<Rightarrow> Inr fs
      | Some (File c) \<Rightarrow> Inl (FsFailure ''EEXIST'')
      | None \<Rightarrow> Inl (FsFailure ''ENOENT''))"
| "mkdirp fs loc (name # names) =
     (case nodeAt fs loc of
        None \<Rightarrow> Inl (FsFailure ''ENOENT'')
      | Some (File c) \<Rightarrow> Inl (FsFailure ''ENOTDIR'')
      | Some Dir \<Rightarrow>
          if name = [] \<or> name = ''.'' then mkdirp fs loc names
          else if name = ''..'' then mkdirp fs (butlast loc) names
          else
            (case nodeAt fs (loc @ [name]) of
               None \<Rightarrow>
                 mkdirp (fs\<lparr>nodes := (nodes fs)(loc @ [name] \<mapsto> Dir),
                            oplog := oplog fs @ [MkDir (loc @ [name])]\<rparr>) (loc @ [name]) names
             | Some n \<Rightarrow> mkdirp fs (loc @ [name]) names))"

definition ensureDir :: "string \<Rightarrow> FileSystem \<Rightarrow> ApplyError + FileSystem" where
  \<comment> \<open>\<open>fs.ensureDir\<close>\<close>
  "ensureDir d fs =
     (if d = [] then Inl (FsFailure ''ENOENT'')
      else mkdirp fs (startOf fs d) (splitOn CHR ''/'' d))"

definition writeFile :: "string \<Rightarrow> string \<Rightarrow> FileSystem \<Rightarrow> ApplyError + FileSystem" where
  \<comment> \<open>\<open>fs.writeFile\<close>\<close>
  "writeFile p content fs =
     (case resolve fs p of
        Inl e \<Rightarrow> Inl e
      | Inr loc \<Rightarrow>
          (case nodeAt fs loc of
             Some Dir \<Rightarrow> Inl (FsFailure ''EISDIR'')
           | _ \<Rightarrow> Inr (fs\<lparr>nodes := (nodes fs)(loc \<mapsto> File content),
                          oplog := oplog fs @ [WriteFile loc content]\<rparr>)))"

definition readFile :: "FileSystem \<Rightarrow> string \<Rightarrow> ApplyError + string" where
  \<comment> \<open>\<open>fs.readFile\<close>\<close>
  "readFile fs p =
     (case resolve fs p of
        Inl e \<Rightarrow> Inl e
      | Inr loc \<Rightarrow>
          (case nodeAt fs loc of
             Some (File c) \<Rightarrow> Inr c
           | Some Dir \<Rightarrow> Inl (FsFailure ''EISDIR'')
           | None \<Rightarrow> Inl (FsFailure ''ENOENT'')))"

definition unlink :: "string \<Rightarrow> FileSystem \<Rightarrow> ApplyError + FileSystem" where
  \<comment> \<open>\<open>fs.unlink\<close>\<close>
  "unlink p fs =
     (case resolve fs p of
        Inl e \<Rightarrow> Inl e
      | Inr loc \<Rightarrow>
          (case nodeAt fs loc of
             Some (File c) \<Rightarrow>
               Inr (fs\<lparr>nodes := (nodes fs)(loc := None), oplog := oplog fs @ [Unlink loc]\<rparr>)
           | Some Dir \<Rightarrow> Inl (FsFailure ''EISDIR'')
           | None \<Rightarrow> Inl (FsFailure ''ENOENT'')))"

definition fileExistsInProject :: "string \<Rightarrow> string \<Rightarrow> FileSystem \<Rightarrow> ApplyError + bool" where
  "fileExistsInProject projectDir relativePath fs =
     (case resolveProjectPath projectDir relativePath of
        Inl e \<Rightarrow> Inl (PathRejected e)
      | Inr fullPath \<Rightarrow> Inr (pathExists fs fullPath))"

definition readProjectFileAsync :: "string \<Rightarrow> string \<Rightarrow> FileSystem \<Rightarrow> ApplyError + string" where
  "readProjectFileAsync projectDir relativePath fs =
     (case resolveProjectPath projectDir relativePath of
        Inl e \<Rightarrow> Inl (PathRejected e)
      | Inr fullPath \<Rightarrow> readFile fs fullPath)"

definition writeProjectFileAsync ::
  "string \<Rightarrow> string \<Rightarrow> string \<Rightarrow> FileSystem \<Rightarrow> ApplyError + FileSystem" where
  "writeProjectFileAsync projectDir relativePath content fs =
     (case resolveProjectPath projectDir relativePath of
        Inl e \<Rightarrow> Inl (PathRejected e)
      | Inr fullPath \<Rightarrow>
          (case ensureDir (dirname fullPath) fs of
             Inl e \<Rightarrow> Inl e
           | Inr fs1 \<Rightarrow> writeFile fullPath content fs1))"

definition deleteProjectFileAsync :: "string \<Rightarrow> string \<Rightarrow> FileSystem \<Rightarrow> ApplyError + FileSystem" where
  "deleteProjectFileAsync projectDir relativePath fs =
     (case resolveProjectPath projectDir relativePath of
        Inl e \<Rightarrow> Inl (PathRejected e)
      | Inr fullPath \<Rightarrow> if pathExists fs fullPath then unlink fullPath fs else Inr fs)"

definition existingContent :: "string \<Rightarrow> string \<Rightarrow> FileSystem \<Rightarrow> string" where
  \<comment> \<open>\<open>oldContent\<close> of the EDIT case: the content read when the file exists, and the empty
      string when it does not or when the check or the read throws (the catch only warns)\<close>
  "existingContent projectDir filePath fs =
     (case fileExistsInProject projectDir filePath fs of
        Inr True \<Rightarrow>
          (case readProjectFileAsync projectDir filePath fs of Inr c \<Rightarrow> c | Inl e \<Rightarrow> [])
      | _ \<Rightarrow> [])"

definition applyFileChange ::
  "string \<Rightarrow> ActionType \<Rightarrow> string \<Rightarrow> string \<Rightarrow> FileSystem \<Rightarrow> ApplyError + FileSystem" where
  "applyFileChange projectDir action filePath0 content fs =
     (let filePath = cleanFilePath filePath0 in
      case resolveProjectPath projectDir filePath of
        Inl e \<Rightarrow> Inl (PathRejected e)
      | Inr fullPath \<Rightarrow>
          (case action of
             CREATE \<Rightarrow>
               (case ensureDir (dirname fullPath) fs of
                  Inl e \<Rightarrow> Inl e
                | Inr fs1 \<Rightarrow> writeProjectFileAsync projectDir filePath content fs1)
           | EDIT \<Rightarrow>
               (case ensureDir (dirname fullPath) fs of
                  Inl e \<Rightarrow> Inl e
                | Inr fs1 \<Rightarrow>
                    (let oldContent = existingContent projectDir filePath fs1;
                         hasChanges = (oldContent \<noteq> content)
                     in if \<not> hasChanges then Inr fs1
                        else writeProjectFileAsync projectDir filePath content fs1))
           | DELETE \<Rightarrow>
               (case fileExistsInProject projectDir filePath fs of
                  Inl e \<Rightarrow> Inl e
                | Inr ex \<Rightarrow>
                    if ex then deleteProjectFileAsync projectDir filePath fs else Inr fs)
           | _ \<Rightarrow> Inr fs))"

subsection \<open>Facts about normalized paths\<close>


lemma splitOn_nonempty: "splitOn c s \<noteq> []"
  by (induction s) (auto split: list.splits)

lemma splitOn_append: "splitOn c (a @ c # b) = splitOn c a @ splitOn c b"
  by (induction a) (auto split: list.splits simp: splitOn_nonempty)

lemma splitOn_no_sep: "s \<in> set (splitOn c xs) \<Longrightarrow> c \<notin> set s"
  by (induction xs arbitrary: s) (auto split: list.splits if_splits)

lemma splitOn_single: "c \<notin> set s \<Longrightarrow> splitOn c s = [s]"
  by (induction s) (auto split: list.splits)

lemma splitOn_joinSlash:
  "segs \<noteq> [] \<Longrightarrow> \<forall>s\<in>set segs. CHR ''/'' \<notin> set s \<Longrightarrow> splitOn CHR ''/'' (joinSlash segs) = segs"
proof (induction segs rule: joinSlash.induct)
  case 1 then show ?case by simp
next
  case (2 s)
  then show ?case by (simp add: splitOn_single)
next
  case (3 s t ss)
  have "splitOn CHR ''/'' (s @ CHR ''/'' # joinSlash (t # ss)) = splitOn CHR ''/'' s @ splitOn CHR ''/'' (joinSlash (t # ss))"
    by (rule splitOn_append)
  moreover have "splitOn CHR ''/'' s = [s]" using 3(3) by (simp add: splitOn_single)
  moreover have "splitOn CHR ''/'' (joinSlash (t # ss)) = t # ss" using 3 by simp
  ultimately show ?case by simp
qed

lemma normalizeSegs_append:
  "normalizeSegs a res (xs @ ys) = normalizeSegs a (rev (normalizeSegs a res xs)) ys"
  by (induction a res xs rule: normalizeSegs.induct) (auto split: list.splits)

lemma normalizeSegs_plain:
  "''..'' \<notin> set ys \<Longrightarrow>
   normalizeSegs a res ys = rev res @ filter (\<lambda>s. s \<noteq> [] \<and> s \<noteq> ''.'') ys"
  by (induction ys arbitrary: res) auto

fun dotsThenNormal :: "string list \<Rightarrow> bool" where
  "dotsThenNormal [] = True"
| "dotsThenNormal (s # ss) =
     (if s = ''..'' then dotsThenNormal ss
      else list_all (\<lambda>t. t \<noteq> [] \<and> t \<noteq> ''.'' \<and> t \<noteq> ''..'') (s # ss))"

lemma dotsThenNormal_snoc_normal:
  "dotsThenNormal xs \<Longrightarrow> s \<noteq> [] \<Longrightarrow> s \<noteq> ''.'' \<Longrightarrow> s \<noteq> ''..'' \<Longrightarrow> dotsThenNormal (xs @ [s])"
  by (induction xs) auto

lemma dotsThenNormal_butlast: "dotsThenNormal (xs @ [s]) \<Longrightarrow> dotsThenNormal xs"
  by (induction xs) (auto split: if_splits)

lemma dotsThenNormal_snoc_dots:
  "dotsThenNormal (xs @ [''..'']) \<Longrightarrow> dotsThenNormal (xs @ [''..'', ''..''])"
  by (induction xs) (auto split: if_splits)

lemma normalizeSegs_shape:
  "dotsThenNormal (rev res) \<Longrightarrow> dotsThenNormal (normalizeSegs a res ss)"
proof (induction a res ss rule: normalizeSegs.induct)
  case (1 a res)
  then show ?case by simp
next
  case (2 a res s ss)
  show ?case
  proof (cases "s = [] \<or> s = ''.''")
    case True
    with 2 show ?thesis by simp
  next
    case False
    show ?thesis
    proof (cases "s = ''..''")
      case dots: True
      show ?thesis
      proof (cases res)
        case Nil
        with 2 dots False show ?thesis by (cases a) auto
      next
        case (Cons r rs)
        show ?thesis
        proof (cases "r = ''..''")
          case True
          from "2.prems" Cons True have "dotsThenNormal (rev rs @ [''..'', ''..''])"
            using dotsThenNormal_snoc_dots[of "rev rs"] by simp
          with 2 dots False Cons True show ?thesis by (cases a) auto
        next
          case nd: False
          from "2.prems" Cons have "dotsThenNormal (rev rs)"
            using dotsThenNormal_butlast[of "rev rs" r] by simp
          with 2 dots False Cons nd show ?thesis by auto
        qed
      qed
    next
      case nd: False
      from "2.prems" False nd have "dotsThenNormal (rev (s # res))"
        using dotsThenNormal_snoc_normal[of "rev res" s] by simp
      with 2 False nd show ?thesis by simp
    qed
  qed
qed

lemma normalizeSegs_subset:
  "set (normalizeSegs a res ss) \<subseteq> set res \<union> set ss \<union> {''..''}"
  by (induction a res ss rule: normalizeSegs.induct) (auto split: list.splits if_splits)

lemma normalizeSegs_no_empty:
  "[] \<notin> set res \<Longrightarrow> [] \<notin> set (normalizeSegs a res ss)"
  by (induction a res ss rule: normalizeSegs.induct) (auto split: list.splits if_splits)

lemma normalizeSegs_below_root:
  "''..'' \<notin> set res \<Longrightarrow> ''..'' \<notin> set (normalizeSegs False res ss)"
  by (induction "False" res ss rule: normalizeSegs.induct) (auto split: list.splits if_splits)

lemma normalizeSegs_no_slash:
  assumes "s \<in> set (normalizeSegs a [] (splitOn CHR ''/'' p))"
  shows "CHR ''/'' \<notin> set s"
proof -
  from assms normalizeSegs_subset[of a "[]" "splitOn CHR ''/'' p"]
  have "s \<in> set (splitOn CHR ''/'' p) \<or> s = ''..''" by auto
  then show ?thesis using splitOn_no_sep[of s "CHR ''/''" p] by auto
qed

lemma joinSlash_Nil: "[] \<notin> set segs \<Longrightarrow> joinSlash segs = [] \<Longrightarrow> segs = []"
  by (induction segs rule: joinSlash.induct) auto

lemma joinSlash_hd: "segs \<noteq> [] \<Longrightarrow> prefix (hd segs) (joinSlash segs)"
  by (induction segs rule: joinSlash.induct) auto

lemma pathSegments_of_joined:
  assumes "[] \<notin> set R" "\<forall>s\<in>set R. CHR ''/'' \<notin> set s" "R \<noteq> []"
  shows "pathSegments (joinSlash R) = R" "pathSegments (joinSlash R @ ''/'') = R"
    "pathSegments (CHR ''/'' # joinSlash R) = R" "pathSegments (CHR ''/'' # joinSlash R @ ''/'') = R"
proof -
  have 1: "splitOn CHR ''/'' (joinSlash R) = R" using assms by (intro splitOn_joinSlash) auto
  have 2: "splitOn CHR ''/'' (joinSlash R @ CHR ''/'' # []) = R @ [[]]"
    unfolding splitOn_append 1 by simp
  have f: "filter (\<lambda>s. s \<noteq> []) R = R" using assms(1) by (induction R) auto
  show "pathSegments (joinSlash R) = R" unfolding pathSegments_def 1 by (rule f)
  show "pathSegments (joinSlash R @ ''/'') = R" unfolding pathSegments_def using 2 f by simp
  show "pathSegments (CHR ''/'' # joinSlash R) = R" unfolding pathSegments_def using 1 f by simp
  show "pathSegments (CHR ''/'' # joinSlash R @ ''/'') = R" unfolding pathSegments_def using 2 f by simp
qed

lemma pathSegments_normalize_abs:
  assumes "isAbsolute p"
  shows "pathSegments (normalize p) = normalizeSegs False [] (splitOn CHR ''/'' p)"
proof -
  define R where "R = normalizeSegs False [] (splitOn CHR ''/'' p)"
  have ne: "[] \<notin> set R" unfolding R_def by (rule normalizeSegs_no_empty) simp
  have ns: "\<forall>s\<in>set R. CHR ''/'' \<notin> set s" unfolding R_def using normalizeSegs_no_slash by blast
  from assms have p: "p \<noteq> []" by (auto simp: isAbsolute_def)
  have n: "normalize p = (if joinSlash R = [] then ''/''
                          else CHR ''/'' # (if last p = CHR ''/'' then joinSlash R @ ''/'' else joinSlash R))"
    using assms p by (simp add: normalize_def Let_def R_def)
  show ?thesis
  proof (cases "R = []")
    case True
    then show ?thesis unfolding n R_def[symmetric] by (simp add: pathSegments_def)
  next
    case False
    with ne have j: "joinSlash R \<noteq> []" using joinSlash_Nil by blast
    from pathSegments_of_joined[OF ne ns False] j show ?thesis
      unfolding n R_def[symmetric] by simp
  qed
qed

lemma dotsThenNormal_no_dots:
  "dotsThenNormal segs \<Longrightarrow> segs \<noteq> [] \<Longrightarrow> hd segs \<noteq> ''..'' \<Longrightarrow> ''..'' \<notin> set segs"
  by (cases segs) (auto simp: list_all_iff)

lemma normalize_relative_segments:
  assumes rel: "\<not> isAbsolute q" and np: "\<not> prefix ''..'' (normalize q)"
  shows "''..'' \<notin> set (splitOn CHR ''/'' (normalize q)) \<and> normalize q \<noteq> []"
proof (cases "q = []")
  case True
  then show ?thesis by (simp add: normalize_def)
next
  case False
  define R where "R = normalizeSegs True [] (splitOn CHR ''/'' q)"
  have ne: "[] \<notin> set R" unfolding R_def by (rule normalizeSegs_no_empty) simp
  have ns: "\<forall>s\<in>set R. CHR ''/'' \<notin> set s" unfolding R_def using normalizeSegs_no_slash by blast
  have sh: "dotsThenNormal R" unfolding R_def by (rule normalizeSegs_shape) simp
  have n: "normalize q = (if joinSlash R = [] then (if last q = CHR ''/'' then ''./'' else ''.'')
                          else (if last q = CHR ''/'' then joinSlash R @ ''/'' else joinSlash R))"
    using rel False by (simp add: normalize_def Let_def R_def)
  show ?thesis
  proof (cases "R = []")
    case True
    then show ?thesis unfolding n by simp
  next
    case nonempty: False
    with ne have j: "joinSlash R \<noteq> []" using joinSlash_Nil by blast
    have "prefix (hd R) (joinSlash R)" using nonempty by (rule joinSlash_hd)
    then have "prefix (hd R) (normalize q)" unfolding n using j by (auto intro: prefix_prefix)
    with np have "hd R \<noteq> ''..''" by auto
    from dotsThenNormal_no_dots[OF sh nonempty this] have nd: "''..'' \<notin> set R" .
    have 1: "splitOn CHR ''/'' (joinSlash R) = R" using ne ns nonempty by (intro splitOn_joinSlash) auto
    have 2: "splitOn CHR ''/'' (joinSlash R @ CHR ''/'' # []) = R @ [[]]"
      unfolding splitOn_append 1 by simp
    show ?thesis unfolding n using j nd 1 2 by simp
  qed
qed

lemma resolve_relative_inside:
  assumes dir: "isAbsolute projectDir" and rel: "\<not> isAbsolute q"
    and ok: "resolveProjectPath projectDir q = Inr full"
  shows "insideProject projectDir full \<and> isAbsolute full"
proof -
  define nq where "nq = normalize q"
  from ok rel have np: "\<not> prefix ''..'' nq" and full: "full = pathJoin projectDir nq"
    unfolding resolveProjectPath_def Let_def nq_def by (auto split: if_splits)
  from normalize_relative_segments[OF rel np[unfolded nq_def]]
  have B: "''..'' \<notin> set (splitOn CHR ''/'' nq)" and nqne: "nq \<noteq> []" unfolding nq_def by simp_all
  from dir have dne: "projectDir \<noteq> []" by (auto simp: isAbsolute_def)
  define joined where "joined = projectDir @ CHR ''/'' # nq"
  have full': "full = normalize joined" unfolding full pathJoin_def joined_def using dne nqne by simp
  have ja: "isAbsolute joined" using dir dne unfolding joined_def isAbsolute_def
    by (cases projectDir) auto
  define D where "D = normalizeSegs False [] (splitOn CHR ''/'' projectDir)"
  have "normalizeSegs False [] (splitOn CHR ''/'' joined)
        = normalizeSegs False (rev D) (splitOn CHR ''/'' nq)"
    unfolding joined_def splitOn_append D_def by (rule normalizeSegs_append)
  also have "\<dots> = D @ filter (\<lambda>s. s \<noteq> [] \<and> s \<noteq> ''.'') (splitOn CHR ''/'' nq)"
    using normalizeSegs_plain[OF B, of False "rev D"] by simp
  finally have segs: "pathSegments full = D @ filter (\<lambda>s. s \<noteq> [] \<and> s \<noteq> ''.'') (splitOn CHR ''/'' nq)"
    unfolding full' pathSegments_normalize_abs[OF ja] .
  have dsegs: "pathSegments (normalize projectDir) = D"
    unfolding D_def by (rule pathSegments_normalize_abs[OF dir])
  have "''..'' \<notin> set D" unfolding D_def by (rule normalizeSegs_below_root) simp
  with B have "''..'' \<notin> set (pathSegments full)" unfolding segs by auto
  moreover have "prefix (pathSegments (normalize projectDir)) (pathSegments full)"
    unfolding segs dsegs by simp
  moreover have "isAbsolute full" unfolding full' using ja
    by (auto simp: normalize_def isAbsolute_def Let_def split: list.splits)
  ultimately show ?thesis unfolding insideProject_def by simp
qed

lemmas path_eval =
  resolveProjectPath_def cleanFilePath_def pathChar_def trim_def is_space_def isAbsolute_def
  normalize_def pathJoin_def Let_def pathSegments_def insideProject_def dirname_def

subsection \<open>Facts about the file system\<close>

lemma nodeAt_above:
  assumes "nodeAt fs loc = Some n" and "loc \<noteq> []"
  shows "nodeAt fs (butlast loc) = Some Dir"
proof -
  from assms(2) obtain xs x where loc: "loc = xs @ [x]" by (cases loc rule: rev_cases) auto
  show ?thesis
  proof (cases "xs = []")
    case True
    with loc show ?thesis by (simp add: nodeAt_def)
  next
    case False
    from assms have all: "\<And>k. 1 \<le> k \<Longrightarrow> k < length loc \<Longrightarrow> nodes fs (take k loc) = Some Dir"
      by (simp add: nodeAt_def list_all_iff split: if_splits)
    from False have "1 \<le> length xs" by (cases xs) auto
    moreover have "length xs < length loc" by (simp add: loc)
    ultimately have "nodes fs (take (length xs) loc) = Some Dir" by (rule all)
    then have top: "nodes fs xs = Some Dir" by (simp add: loc)
    have "\<forall>k\<in>{1..<length xs}. nodes fs (take k xs) = Some Dir"
    proof
      fix k assume k: "k \<in> {1..<length xs}"
      then have "1 \<le> k" "k < length loc" by (simp_all add: loc)
      then have "nodes fs (take k loc) = Some Dir" by (rule all)
      with k show "nodes fs (take k xs) = Some Dir" by (simp add: loc)
    qed
    with top False show ?thesis unfolding loc by (simp add: nodeAt_def list_all_iff)
  qed
qed

lemma nodeAt_dir_above: "nodeAt fs loc = Some n \<Longrightarrow> nodeAt fs (butlast loc) = Some Dir"
proof (cases "loc = []")
  case True
  then show ?thesis by (simp add: nodeAt_def)
next
  case False
  assume "nodeAt fs loc = Some n"
  from this False show ?thesis by (rule nodeAt_above)
qed

fun dirsWalk :: "FileSystem \<Rightarrow> string list \<Rightarrow> string list \<Rightarrow> string list option" where
  \<comment> \<open>\<open>walk\<close> along a path all of whose names, the last too, lead to directories\<close>
  "dirsWalk fs loc [] = (if nodeAt fs loc = Some Dir then Some loc else None)"
| "dirsWalk fs loc (name # names) =
     (if nodeAt fs loc \<noteq> Some Dir then None
      else if name = [] \<or> name = ''.'' then dirsWalk fs loc names
      else if name = ''..'' then dirsWalk fs (butlast loc) names
      else dirsWalk fs (loc @ [name]) names)"

lemma dirsWalk_start: "dirsWalk fs loc names = Some l \<Longrightarrow> nodeAt fs loc = Some Dir"
  by (cases names) (auto split: if_splits)

lemma dirsWalk_mkdirp: "dirsWalk fs loc names = Some l \<Longrightarrow> mkdirp fs loc names = Inr fs"
proof (induction names arbitrary: loc)
  case Nil
  then show ?case by (simp split: if_splits)
next
  case (Cons name names)
  from Cons.prems have d: "nodeAt fs loc = Some Dir" by (rule dirsWalk_start)
  show ?case
  proof (cases "name = [] \<or> name = ''.''")
    case True
    with Cons d show ?thesis by auto
  next
    case False
    show ?thesis
    proof (cases "name = ''..''")
      case True
      with Cons d False show ?thesis by auto
    next
      case n: False
      from Cons.prems d False n have w: "dirsWalk fs (loc @ [name]) names = Some l" by simp
      from dirsWalk_start[OF w] have "nodeAt fs (loc @ [name]) = Some Dir" .
      with Cons.IH[OF w] d False n show ?thesis by simp
    qed
  qed
qed

definition plainNames :: "string list \<Rightarrow> string list" where
  "plainNames names = filter (\<lambda>s. s \<noteq> [] \<and> s \<noteq> ''.'') names"

lemma dirsWalk_plainNames: "dirsWalk fs loc (plainNames names) = dirsWalk fs loc names"
proof (induction names arbitrary: loc)
  case Nil
  then show ?case by (simp add: plainNames_def)
next
  case (Cons name names)
  show ?case
  proof (cases "name = [] \<or> name = ''.''")
    case True
    have "nodeAt fs loc \<noteq> Some Dir \<Longrightarrow> dirsWalk fs loc (plainNames names) = None"
      using dirsWalk_start[of fs loc "plainNames names"] by (cases "dirsWalk fs loc (plainNames names)") auto
    with True Cons.IH[of loc] show ?thesis by (auto simp: plainNames_def)
  next
    case False
    with Cons.IH show ?thesis by (auto simp: plainNames_def)
  qed
qed

lemma walk_to_file:
  assumes "walk fs loc (names @ [name]) = Inr l" and "nodeAt fs l = Some (File c)"
  shows "\<exists>above. dirsWalk fs loc names = Some above"
  using assms
proof (induction names arbitrary: loc)
  case Nil
  from Nil.prems(1) have d: "nodeAt fs loc = Some Dir"
    by (auto split: option.splits Node.splits)
  then show ?case by simp
next
  case (Cons n names)
  from Cons.prems(1) have d: "nodeAt fs loc = Some Dir"
    by (auto split: option.splits Node.splits)
  show ?case
  proof (cases "n = [] \<or> n = ''.''")
    case True
    with Cons.prems d have "walk fs loc (names @ [name]) = Inr l" by auto
    from Cons.IH[OF this Cons.prems(2)] True d show ?thesis by auto
  next
    case False
    show ?thesis
    proof (cases "n = ''..''")
      case True
      with Cons.prems d False have "walk fs (butlast loc) (names @ [name]) = Inr l" by auto
      from Cons.IH[OF this Cons.prems(2)] True d False show ?thesis by auto
    next
      case nn: False
      with Cons.prems d False have "walk fs (loc @ [n]) (names @ [name]) = Inr l" by auto
      from Cons.IH[OF this Cons.prems(2)] nn d False show ?thesis by auto
    qed
  qed
qed

lemma walk_file_last_name:
  assumes "walk fs loc (names @ [name]) = Inr l" and "nodeAt fs l = Some (File c)"
  shows "name \<noteq> []"
  using assms
proof (induction names arbitrary: loc)
  case Nil
  from Nil.prems(1) have d: "nodeAt fs loc = Some Dir"
    by (auto split: option.splits Node.splits)
  show ?case
  proof
    assume "name = []"
    with Nil.prems(1) d have "l = loc" by simp
    with d Nil.prems(2) show False by simp
  qed
next
  case (Cons n names)
  from Cons.prems(1) have d: "nodeAt fs loc = Some Dir"
    by (auto split: option.splits Node.splits)
  from Cons.prems(1) d obtain loc' where "walk fs loc' (names @ [name]) = Inr l"
    by (auto split: if_splits)
  from Cons.IH[OF this Cons.prems(2)] show ?case .
qed


lemma dropWhile_all: "\<forall>x\<in>set xs. P x \<Longrightarrow> dropWhile P (xs @ ys) = dropWhile P ys"
  by (induction xs) auto

lemma dropWhile_none: "xs \<noteq> [] \<Longrightarrow> \<not> P (hd xs) \<Longrightarrow> dropWhile P xs = xs"
  by (cases xs) auto

lemma dirname_no_slash:
  assumes "CHR ''/'' \<notin> set nm"
  shows "dirname (c # nm) = (if c = CHR ''/'' then ''/'' else ''.'')"
proof -
  have 1: "dropWhile (\<lambda>x. x = CHR ''/'') (rev nm) = rev nm"
  proof (cases "rev nm")
    case Nil then show ?thesis by simp
  next
    case (Cons x xs)
    then have "x \<in> set nm" by (metis list.set_intros(1) set_rev)
    with assms have "x \<noteq> CHR ''/''" by auto
    with Cons show ?thesis by simp
  qed
  have 2: "dropWhile (\<lambda>x. x \<noteq> CHR ''/'') (rev nm) = []" using assms by auto
  show ?thesis unfolding dirname_def list.case Let_def 1 2 by simp
qed

lemma dirname_split:
  assumes "nm \<noteq> []" and "CHR ''/'' \<notin> set nm"
  shows "dirname (c # a @ CHR ''/'' # nm) = (if c = CHR ''/'' \<and> a = [] then ''//'' else c # a)"
proof -
  from assms have h: "rev nm \<noteq> []" "\<not> (hd (rev nm) = CHR ''/'')"
    by (simp_all add: hd_rev) (metis last_in_set)
  then have "rev nm @ CHR ''/'' # rev a \<noteq> []" "\<not> (hd (rev nm @ CHR ''/'' # rev a) = CHR ''/'')"
    by simp_all
  then have 1: "dropWhile (\<lambda>x. x = CHR ''/'') (rev nm @ CHR ''/'' # rev a) = rev nm @ CHR ''/'' # rev a"
    by (rule dropWhile_none)
  have "\<forall>x\<in>set (rev nm). x \<noteq> CHR ''/''" using assms(2) by auto
  then have 2: "dropWhile (\<lambda>x. x \<noteq> CHR ''/'') (rev nm @ CHR ''/'' # rev a) = CHR ''/'' # rev a"
    by (simp add: dropWhile_all)
  show ?thesis by (simp add: dirname_def 1 2)
qed

lemma last_name_split:
  obtains a nm where "p = a @ nm" "CHR ''/'' \<notin> set nm" "a = [] \<or> (\<exists>b. a = b @ ''/'')"
proof -
  define nm where "nm = rev (takeWhile (\<lambda>x. x \<noteq> CHR ''/'') (rev p))"
  define a where "a = rev (dropWhile (\<lambda>x. x \<noteq> CHR ''/'') (rev p))"
  have "rev p = takeWhile (\<lambda>x. x \<noteq> CHR ''/'') (rev p) @ dropWhile (\<lambda>x. x \<noteq> CHR ''/'') (rev p)"
    by simp
  then have "rev (rev p) = a @ nm" unfolding a_def nm_def by (metis rev_append)
  then have 1: "p = a @ nm" by simp
  have 2: "CHR ''/'' \<notin> set nm" unfolding nm_def by (auto dest: set_takeWhileD)
  have 3: "a = [] \<or> (\<exists>b. a = b @ ''/'')"
  proof (cases "dropWhile (\<lambda>x. x \<noteq> CHR ''/'') (rev p)")
    case Nil
    then show ?thesis by (simp add: a_def)
  next
    case (Cons x xs)
    from hd_dropWhile[of "\<lambda>x. x \<noteq> CHR ''/''" "rev p"] Cons have "x = CHR ''/''" by simp
    with Cons have "a = rev xs @ ''/''" by (simp add: a_def)
    then show ?thesis by blast
  qed
  from 1 2 3 show ?thesis by (rule that)
qed

lemma dirname_names:
  assumes ne: "p \<noteq> []" and l: "last (splitOn CHR ''/'' p) \<noteq> []"
  shows "plainNames (splitOn CHR ''/'' (dirname p)) = plainNames (butlast (splitOn CHR ''/'' p))
         \<and> isAbsolute (dirname p) = isAbsolute p \<and> dirname p \<noteq> []"
proof -
  obtain a nm where p: "p = a @ nm" and ns: "CHR ''/'' \<notin> set nm"
    and a: "a = [] \<or> (\<exists>b. a = b @ ''/'')" by (rule last_name_split)
  from a show ?thesis
  proof
    assume "a = []"
    with p ne obtain c cs where pc: "p = c # cs" "nm = c # cs" by (cases nm) auto
    with ns have c: "c \<noteq> CHR ''/''" "CHR ''/'' \<notin> set cs" by auto
    have "splitOn CHR ''/'' p = [p]" using ns p \<open>a = []\<close> by (simp add: splitOn_single)
    moreover have "dirname p = ''.''" unfolding pc(1) using c by (simp add: dirname_no_slash)
    ultimately show ?thesis using c pc by (simp add: plainNames_def isAbsolute_def)
  next
    assume "\<exists>b. a = b @ ''/''"
    then obtain b where b: "a = b @ ''/''" ..
    have sp: "splitOn CHR ''/'' p = splitOn CHR ''/'' b @ [nm]"
      unfolding p b using splitOn_append[of "CHR ''/''" b nm] ns by (simp add: splitOn_single)
    with l have nm: "nm \<noteq> []" by simp
    show ?thesis
    proof (cases b)
      case Nil
      have "dirname p = ''/''" unfolding p b Nil using ns by (simp add: dirname_no_slash)
      with sp Nil show ?thesis by (simp add: plainNames_def isAbsolute_def p b)
    next
      case (Cons c b')
      have d: "dirname p = (if c = CHR ''/'' \<and> b' = [] then ''//'' else c # b')"
        unfolding p b Cons using dirname_split[OF nm ns, of c b'] by simp
      show ?thesis
      proof (cases "c = CHR ''/'' \<and> b' = []")
        case True
        with d sp Cons show ?thesis by (simp add: plainNames_def isAbsolute_def p b)
      next
        case False
        with d have "dirname p = b" by (simp add: Cons)
        with sp Cons show ?thesis by (simp add: isAbsolute_def p b)
      qed
    qed
  qed
qed

lemma ensureDir_of_file:
  assumes "readFile fs full = Inr content"
  shows "ensureDir (dirname full) fs = Inr fs"
proof -
  from assms obtain l where r: "resolve fs full = Inr l" and f: "nodeAt fs l = Some (File content)"
    by (auto simp: readFile_def split: sum.splits option.splits Node.splits)
  from r have ne: "full \<noteq> []" and w: "walk fs (startOf fs full) (splitOn CHR ''/'' full) = Inr l"
    by (auto simp: resolve_def split: if_splits)
  define names where "names = splitOn CHR ''/'' full"
  have nn: "names \<noteq> []" unfolding names_def by (rule splitOn_nonempty)
  then have sp: "names = butlast names @ [last names]" by simp
  from w have w': "walk fs (startOf fs full) (butlast names @ [last names]) = Inr l"
    using sp names_def by simp
  from walk_file_last_name[OF w' f] have "last (splitOn CHR ''/'' full) \<noteq> []"
    by (simp add: names_def)
  from dirname_names[OF ne this]
  have dn: "plainNames (splitOn CHR ''/'' (dirname full)) = plainNames (butlast names)"
    and ab: "isAbsolute (dirname full) = isAbsolute full" and de: "dirname full \<noteq> []"
    by (simp_all add: names_def)
  from walk_to_file[OF w' f] obtain above where
    "dirsWalk fs (startOf fs full) (butlast names) = Some above" ..
  then have "dirsWalk fs (startOf fs full) (plainNames (butlast names)) = Some above"
    by (simp add: dirsWalk_plainNames)
  then have "dirsWalk fs (startOf fs full) (splitOn CHR ''/'' (dirname full)) = Some above"
    using dirsWalk_plainNames[of fs "startOf fs full" "splitOn CHR ''/'' (dirname full)"] dn by simp
  moreover have "startOf fs (dirname full) = startOf fs full" by (simp add: startOf_def ab)
  ultimately have "mkdirp fs (startOf fs (dirname full)) (splitOn CHR ''/'' (dirname full)) = Inr fs"
    by (simp add: dirsWalk_mkdirp)
  with de show ?thesis by (simp add: ensureDir_def)
qed

lemmas fs_eval =
  nodeAt_def startOf_def resolve_def pathExists_def ensureDir_def writeFile_def readFile_def
  unlink_def fileExistsInProject_def readProjectFileAsync_def writeProjectFileAsync_def
  deleteProjectFileAsync_def existingContent_def applyFileChange_def

subsection \<open>Claims about paths and the file mutator\<close>

text \<open>
  C6, as stated: every absolute path is rejected. An absolute path that starts with the
  project directory is accepted and returned as it is (the repository's own path test
  expects this for a file in the project).
\<close>

theorem absolute_path_counterexample:
  "isAbsolute (cleanFilePath ''/p1/a.txt'')
   \<and> resolveProjectPath ''/p1'' (cleanFilePath ''/p1/a.txt'') = Inr ''/p1/a.txt''"
  by (simp add: path_eval)

text \<open>
  The test on an absolute path compares strings and the path is returned without being
  normalized, so \<open>/p1/../etc/passwd\<close> and \<open>/p1x/a.txt\<close> pass for the project \<open>/p1\<close>
  although they lead outside it.
\<close>

lemma absolute_prefix_escapes:
  "resolveProjectPath ''/p1'' (cleanFilePath ''/p1/../etc/passwd'') = Inr ''/p1/../etc/passwd''
   \<and> \<not> insideProject ''/p1'' ''/p1/../etc/passwd''
   \<and> normalize ''/p1/../etc/passwd'' = ''/etc/passwd''
   \<and> resolveProjectPath ''/p1'' (cleanFilePath ''/p1x/a.txt'') = Inr ''/p1x/a.txt''
   \<and> \<not> insideProject ''/p1'' ''/p1x/a.txt''"
  by (simp add: path_eval)

lemma absolute_inside_accepted:
  assumes dir: "isAbsolute dir" and norm: "normalize dir = dir" and ne: "names \<noteq> []"
    and plain: "\<forall>s\<in>set names. s \<noteq> [] \<and> s \<noteq> ''.'' \<and> s \<noteq> ''..'' \<and> CHR ''/'' \<notin> set s"
    and q: "q = dir @ ''/'' @ joinSlash names"
  shows "resolveProjectPath dir q = Inr q \<and> insideProject dir q"
proof -
  from dir obtain d where d: "dir = CHR ''/'' # d" by (cases dir) (auto simp: isAbsolute_def)
  have abs: "isAbsolute q" unfolding q d by (simp add: isAbsolute_def)
  have pre: "prefix dir q" unfolding q by simp
  from abs pre have 1: "resolveProjectPath dir q = Inr q" by (simp add: resolveProjectPath_def)
  have sj: "splitOn CHR ''/'' (joinSlash names) = names"
    using ne plain by (intro splitOn_joinSlash) auto
  have "splitOn CHR ''/'' q = splitOn CHR ''/'' dir @ names"
    unfolding q using splitOn_append[of "CHR ''/''" dir "joinSlash names"] sj by simp
  moreover have "filter (\<lambda>s. s \<noteq> []) names = names" using plain by (induction names) auto
  ultimately have segs: "pathSegments q = pathSegments dir @ names"
    by (simp add: pathSegments_def)
  have "pathSegments dir = normalizeSegs False [] (splitOn CHR ''/'' dir)"
    using pathSegments_normalize_abs[OF dir] norm by simp
  moreover have "''..'' \<notin> set (normalizeSegs False [] (splitOn CHR ''/'' dir))"
    by (rule normalizeSegs_below_root) simp
  ultimately have "''..'' \<notin> set (pathSegments dir)" by simp
  with plain have "''..'' \<notin> set (pathSegments q)" unfolding segs by auto
  moreover have "prefix (pathSegments (normalize dir)) (pathSegments q)"
    unfolding norm segs by simp
  ultimately have "insideProject dir q" by (simp add: insideProject_def)
  with 1 show ?thesis by simp
qed

text \<open>
  C6, amended: \<open>applyFileChange\<close> resolves the cleaned path before it does anything. A
  relative path whose normal form starts with \<open>..\<close> is rejected with an error, for
  every action and in particular for \<open>../../etc/passwd\<close>; an absolute path that does not
  start with the project directory is rejected with an error; every relative path that
  is accepted resolves to an absolute location inside the (absolute) project directory;
  and an absolute path made of the project directory (absolute and in normal form), a
  slash and further names, none of them empty, \<open>.\<close> or \<open>..\<close>, is accepted as it is and
  lies inside the project directory.
\<close>

theorem file_paths_validated:
  "(\<not> isAbsolute (cleanFilePath p) \<and> prefix ''..'' (normalize (cleanFilePath p))
      \<longrightarrow> applyFileChange dir action p content fs = Inl (PathRejected ParentAccess))
   \<and> (isAbsolute (cleanFilePath p) \<and> \<not> prefix dir (cleanFilePath p)
      \<longrightarrow> applyFileChange dir action p content fs = Inl (PathRejected OutsideProject))
   \<and> applyFileChange dir action ''../../etc/passwd'' content fs = Inl (PathRejected ParentAccess)
   \<and> (isAbsolute dir \<and> \<not> isAbsolute (cleanFilePath p)
       \<and> resolveProjectPath dir (cleanFilePath p) = Inr full
      \<longrightarrow> insideProject dir full \<and> isAbsolute full)
   \<and> (isAbsolute dir \<and> normalize dir = dir \<and> names \<noteq> []
       \<and> (\<forall>s\<in>set names. s \<noteq> [] \<and> s \<noteq> ''.'' \<and> s \<noteq> ''..'' \<and> CHR ''/'' \<notin> set s)
       \<and> cleanFilePath p = dir @ ''/'' @ joinSlash names
      \<longrightarrow> resolveProjectPath dir (cleanFilePath p) = Inr (cleanFilePath p)
          \<and> insideProject dir (cleanFilePath p))"
proof -
  have c1: "\<not> isAbsolute (cleanFilePath p) \<and> prefix ''..'' (normalize (cleanFilePath p))
      \<longrightarrow> applyFileChange dir action p content fs = Inl (PathRejected ParentAccess)"
    by (simp add: applyFileChange_def resolveProjectPath_def Let_def)
  have c2: "isAbsolute (cleanFilePath p) \<and> \<not> prefix dir (cleanFilePath p)
      \<longrightarrow> applyFileChange dir action p content fs = Inl (PathRejected OutsideProject)"
    by (simp add: applyFileChange_def resolveProjectPath_def Let_def)
  have "cleanFilePath ''../../etc/passwd'' = ''../../etc/passwd''" by (simp add: path_eval)
  moreover have "normalize ''../../etc/passwd'' = ''../../etc/passwd''" by (simp add: path_eval)
  ultimately have c3: "applyFileChange dir action ''../../etc/passwd'' content fs
      = Inl (PathRejected ParentAccess)"
    by (simp add: applyFileChange_def resolveProjectPath_def Let_def isAbsolute_def)
  have c4: "isAbsolute dir \<and> \<not> isAbsolute (cleanFilePath p)
       \<and> resolveProjectPath dir (cleanFilePath p) = Inr full
      \<longrightarrow> insideProject dir full \<and> isAbsolute full"
    using resolve_relative_inside[of dir "cleanFilePath p" full] by blast
  have c5: "isAbsolute dir \<and> normalize dir = dir \<and> names \<noteq> []
       \<and> (\<forall>s\<in>set names. s \<noteq> [] \<and> s \<noteq> ''.'' \<and> s \<noteq> ''..'' \<and> CHR ''/'' \<notin> set s)
       \<and> cleanFilePath p = dir @ ''/'' @ joinSlash names
      \<longrightarrow> resolveProjectPath dir (cleanFilePath p) = Inr (cleanFilePath p)
          \<and> insideProject dir (cleanFilePath p)"
    using absolute_inside_accepted[of dir names "cleanFilePath p"] by blast
  show ?thesis by (intro conjI c1 c2 c3 c4 c5)
qed

definition demoFs :: FileSystem where
  "demoFs = \<lparr>nodes = [[''p1''] \<mapsto> Dir, [''p1'', ''d''] \<mapsto> Dir,
                       [''p1'', ''a.txt''] \<mapsto> File ''same''],
             cwd = [], oplog = []\<rparr>"

text \<open>
  The theorem at a relative path that leaves the project, an absolute path outside it, a
  relative path that is accepted and an absolute path below the project directory.
\<close>

theorem file_paths_validated_witness:
  "applyFileChange ''/p1'' CREATE ''../p2/secret.txt'' ''x'' demoFs = Inl (PathRejected ParentAccess)
   \<and> applyFileChange ''/p1'' DELETE ''/etc/passwd'' [] demoFs = Inl (PathRejected OutsideProject)
   \<and> insideProject ''/p1'' ''/p1/src/app/page.tsx''
   \<and> resolveProjectPath ''/p1'' (cleanFilePath ''/p1/src/a.txt'') = Inr ''/p1/src/a.txt''
   \<and> insideProject ''/p1'' ''/p1/src/a.txt''"
proof -
  have 1: "\<not> isAbsolute (cleanFilePath ''../p2/secret.txt'')
           \<and> prefix ''..'' (normalize (cleanFilePath ''../p2/secret.txt''))"
    by (simp add: path_eval)
  have 2: "isAbsolute (cleanFilePath ''/etc/passwd'') \<and> \<not> prefix ''/p1'' (cleanFilePath ''/etc/passwd'')"
    by (simp add: path_eval)
  have 3: "isAbsolute ''/p1'' \<and> \<not> isAbsolute (cleanFilePath '' ./src/lib/../app/page.tsx'')
       \<and> resolveProjectPath ''/p1'' (cleanFilePath '' ./src/lib/../app/page.tsx'') = Inr ''/p1/src/app/page.tsx''"
    by (simp add: path_eval)
  have 4: "isAbsolute ''/p1'' \<and> normalize ''/p1'' = ''/p1'' \<and> [''src'', ''a.txt''] \<noteq> []
       \<and> (\<forall>s\<in>set [''src'', ''a.txt'']. s \<noteq> [] \<and> s \<noteq> ''.'' \<and> s \<noteq> ''..'' \<and> CHR ''/'' \<notin> set s)
       \<and> cleanFilePath ''/p1/src/a.txt'' = ''/p1'' @ ''/'' @ joinSlash [''src'', ''a.txt'']"
    by (simp add: path_eval)
  have 5: "cleanFilePath ''/p1/src/a.txt'' = ''/p1/src/a.txt''" by (simp add: path_eval)
  from file_paths_validated[of "''../p2/secret.txt''" "''/p1''" CREATE "''x''" demoFs] 1
  have a: "applyFileChange ''/p1'' CREATE ''../p2/secret.txt'' ''x'' demoFs
     = Inl (PathRejected ParentAccess)" by blast
  from file_paths_validated[of "''/etc/passwd''" "''/p1''" DELETE "[]" demoFs] 2
  have b: "applyFileChange ''/p1'' DELETE ''/etc/passwd'' [] demoFs
     = Inl (PathRejected OutsideProject)" by blast
  from file_paths_validated[of "'' ./src/lib/../app/page.tsx''" "''/p1''" _ _ _ "''/p1/src/app/page.tsx''"] 3
  have c: "insideProject ''/p1'' ''/p1/src/app/page.tsx''" by blast
  from file_paths_validated[of "''/p1/src/a.txt''" "''/p1''" _ _ _ _ "[''src'', ''a.txt'']"] 4
  have "resolveProjectPath ''/p1'' (cleanFilePath ''/p1/src/a.txt'') = Inr (cleanFilePath ''/p1/src/a.txt'')
          \<and> insideProject ''/p1'' (cleanFilePath ''/p1/src/a.txt'')" by blast
  then have d: "resolveProjectPath ''/p1'' (cleanFilePath ''/p1/src/a.txt'') = Inr ''/p1/src/a.txt''
          \<and> insideProject ''/p1'' ''/p1/src/a.txt''" by (simp only: 5)
  from a b c d show ?thesis by blast
qed

text \<open>
  Paths are resolved through the directories that exist: an EDIT of \<open>/p1/nope/../a.txt\<close>
  first makes the directory \<open>nope\<close>, and a DELETE of the directory \<open>d/\<close> fails.
\<close>

lemma resolution_examples:
  "map_sum id oplog (applyFileChange ''/p1'' EDIT ''/p1/nope/../a.txt'' ''same'' demoFs)
     = Inr [MkDir [''p1'', ''nope'']]
   \<and> applyFileChange ''/p1'' DELETE ''d/'' [] demoFs = Inl (FsFailure ''EISDIR'')"
  by (simp add: fs_eval path_eval demoFs_def)

text \<open>
  C7. For a path the mutator accepts: an EDIT whose content equals the content of the
  file that exists at the path writes nothing, the file system and its record of
  operations are returned unchanged; a DELETE of a path at which nothing exists does
  nothing and raises no error.
\<close>

theorem unchanged_edit_and_missing_delete:
  "(resolveProjectPath dir (cleanFilePath p) = Inr full \<and> readFile fs full = Inr content
     \<longrightarrow> applyFileChange dir EDIT p content fs = Inr fs)
   \<and> (resolveProjectPath dir (cleanFilePath p) = Inr full \<and> \<not> pathExists fs full
     \<longrightarrow> applyFileChange dir DELETE p content fs = Inr fs)"
proof (rule conjI; rule impI)
  assume a: "resolveProjectPath dir (cleanFilePath p) = Inr full \<and> readFile fs full = Inr content"
  then have r: "readFile fs full = Inr content" ..
  then have e: "ensureDir (dirname full) fs = Inr fs" by (rule ensureDir_of_file)
  from r have "pathExists fs full"
    by (auto simp: readFile_def pathExists_def split: sum.splits option.splits Node.splits)
  with a have "existingContent dir (cleanFilePath p) fs = content"
    by (simp add: existingContent_def fileExistsInProject_def readProjectFileAsync_def)
  with a e show "applyFileChange dir EDIT p content fs = Inr fs"
    by (simp add: applyFileChange_def Let_def)
next
  assume "resolveProjectPath dir (cleanFilePath p) = Inr full \<and> \<not> pathExists fs full"
  then show "applyFileChange dir DELETE p content fs = Inr fs"
    by (simp add: applyFileChange_def Let_def fileExistsInProject_def)
qed

text \<open>
  The theorem in a project with the file \<open>a.txt\<close>: an EDIT with the content it has, and
  a DELETE of \<open>b.txt\<close>, which does not exist.
\<close>

theorem unchanged_edit_and_missing_delete_witness:
  "applyFileChange ''/p1'' EDIT ''a.txt'' ''same'' demoFs = Inr demoFs
   \<and> applyFileChange ''/p1'' DELETE ''b.txt'' [] demoFs = Inr demoFs"
proof -
  have 1: "resolveProjectPath ''/p1'' (cleanFilePath ''a.txt'') = Inr ''/p1/a.txt''
          \<and> readFile demoFs ''/p1/a.txt'' = Inr ''same''"
    by (simp add: path_eval fs_eval demoFs_def)
  have 2: "resolveProjectPath ''/p1'' (cleanFilePath ''b.txt'') = Inr ''/p1/b.txt''
          \<and> \<not> pathExists demoFs ''/p1/b.txt''"
    by (simp add: path_eval fs_eval demoFs_def)
  from unchanged_edit_and_missing_delete[of "''/p1''" "''a.txt''" "''/p1/a.txt''" demoFs "''same''"] 1
  have a: "applyFileChange ''/p1'' EDIT ''a.txt'' ''same'' demoFs = Inr demoFs" by blast
  from unchanged_edit_and_missing_delete[of "''/p1''" "''b.txt''" "''/p1/b.txt''" demoFs "[]"] 2
  have b: "applyFileChange ''/p1'' DELETE ''b.txt'' [] demoFs = Inr demoFs" by blast
  from a b show ?thesis by blast
qed


section \<open>Command execution (executeCommand)\<close>

subsection \<open>A backtracking matcher for the duplicate-command patterns\<close>

text \<open>
  The two patterns that look for a repeated command use groups, back references and the
  \<open>i\<close> flag. They are written as terms of \<open>Rx\<close> and matched by \<open>rxMatch\<close>, which lists the
  ways a pattern matches at the start of the input in the order the backtracking matcher
  of JavaScript tries them: the first alternative before the second, a longer repetition
  before a shorter one. Every repetition in the two patterns is \<open>+\<close> on a character class.
  Letters are compared without case; the captured texts hold ASCII word characters, white
  space and \<open>@ . - /\<close> only, for which this is the comparison the \<open>i\<close> flag makes.
\<close>

datatype Rx =
    Lit string
  | PlusCls "char \<Rightarrow> bool"
  | Seq Rx Rx
  | Alt Rx Rx
  | Grp nat Rx
  | Back nat

definition lowerChar :: "char \<Rightarrow> char" where
  "lowerChar c =
     (let n = (of_char c :: nat) in if 65 \<le> n \<and> n \<le> 90 then char_of (n + 32) else c)"

definition prefixCI :: "string \<Rightarrow> string \<Rightarrow> bool" where
  \<comment> \<open>the text \<open>l\<close> stands at the start of \<open>s\<close>, letters compared without case\<close>
  "prefixCI l s = (length l \<le> length s \<and> map lowerChar l = map lowerChar (take (length l) s))"

fun rxMatch :: "Rx \<Rightarrow> (nat \<rightharpoonup> string) \<Rightarrow> string \<Rightarrow> ((nat \<rightharpoonup> string) \<times> string) list" where
  "rxMatch (Lit l) caps s = (if prefixCI l s then [(caps, drop (length l) s)] else [])"
| "rxMatch (PlusCls P) caps s =
     map (\<lambda>k. (caps, drop k s)) (rev [1..<Suc (length (takeWhile P s))])"
| "rxMatch (Seq a b) caps s =
     concat (map (\<lambda>(caps1, r1). rxMatch b caps1 r1) (rxMatch a caps s))"
| "rxMatch (Alt a b) caps s = rxMatch a caps s @ rxMatch b caps s"
| "rxMatch (Grp n a) caps s =
     map (\<lambda>(caps1, r1). (caps1(n \<mapsto> take (length s - length r1) s), r1)) (rxMatch a caps s)"
| "rxMatch (Back n) caps s =
     (case caps n of
        None \<Rightarrow> [(caps, s)]
      | Some g \<Rightarrow> if prefixCI g s then [(caps, drop (length g) s)] else [])"

fun rxSearch :: "Rx \<Rightarrow> string \<Rightarrow> (nat \<rightharpoonup> string) option" where
  \<comment> \<open>\<open>s.match(pattern)\<close>: the groups of the leftmost match, \<open>None\<close> for no match\<close>
  "rxSearch r [] = (case rxMatch r Map.empty [] of [] \<Rightarrow> None | (caps, rest) # _ \<Rightarrow> Some caps)"
| "rxSearch r (c # cs) =
     (case rxMatch r Map.empty (c # cs) of
        [] \<Rightarrow> rxSearch r cs
      | (caps, rest) # _ \<Rightarrow> Some caps)"

definition wordChar :: "char \<Rightarrow> bool" where
  \<comment> \<open>the class \<open>\w\<close>\<close>
  "wordChar c =
     (let n = (of_char c :: nat) in
      (97 \<le> n \<and> n \<le> 122) \<or> (65 \<le> n \<and> n \<le> 90) \<or> (48 \<le> n \<and> n \<le> 57) \<or> c = CHR ''_'')"

definition spaces :: Rx where
  \<comment> \<open>\<open>\s+\<close>\<close>
  "spaces = PlusCls is_space"

fun seqs :: "Rx list \<Rightarrow> Rx" where
  \<comment> \<open>the patterns of a list one after the other\<close>
  "seqs [] = Lit []"
| "seqs [r] = r"
| "seqs (r # rs) = Seq r (seqs rs)"

definition npmPattern :: Rx where
  \<comment> \<open>\<open>/(npm\s+(install|run)|npx\s+[\w@.-]+)\s+([\w\s@.-]+)(\s+\1\s+\3)/i\<close>\<close>
  "npmPattern =
     seqs [Grp 1 (Alt (seqs [Lit ''npm'', spaces, Grp 2 (Alt (Lit ''install'') (Lit ''run''))])
                      (seqs [Lit ''npx'', spaces,
                             PlusCls (\<lambda>c. wordChar c \<or> c = CHR ''@'' \<or> c = CHR ''.'' \<or> c = CHR ''-'')])),
           spaces,
           Grp 3 (PlusCls (\<lambda>c. wordChar c \<or> is_space c \<or> c = CHR ''@'' \<or> c = CHR ''.'' \<or> c = CHR ''-'')),
           Grp 4 (seqs [spaces, Back 1, spaces, Back 3])]"

definition shadcnPattern :: Rx where
  \<comment> \<open>\<open>/(npx\s+shadcn@latest\s+add\s+--yes\s+--overwrite\s+--path=[\w/.-]+)(\s+[\w\s-]+)(\s+\1)/i\<close>\<close>
  "shadcnPattern =
     seqs [Grp 1 (seqs [Lit ''npx'', spaces, Lit ''shadcn@latest'', spaces, Lit ''add'', spaces,
                        Lit ''--yes'', spaces, Lit ''--overwrite'', spaces, Lit ''--path='',
                        PlusCls (\<lambda>c. wordChar c \<or> c = CHR ''/'' \<or> c = CHR ''.'' \<or> c = CHR ''-'')]),
           Grp 2 (seqs [spaces, PlusCls (\<lambda>c. wordChar c \<or> is_space c \<or> c = CHR ''-'')]),
           Grp 3 (seqs [spaces, Back 1])]"

subsection \<open>Cleaning the command\<close>

definition replaceFirst :: "string \<Rightarrow> string \<Rightarrow> string \<Rightarrow> string" where
  \<comment> \<open>\<open>s.replace(pattern, replacement)\<close> for a string pattern: the first occurrence only\<close>
  "replaceFirst s pat rep =
     (case indexOf0 s pat of
        None \<Rightarrow> s
      | Some i \<Rightarrow> take i s @ rep @ drop (i + length pat) s)"

function collapseNewlines :: "string \<Rightarrow> string" where
  \<comment> \<open>\<open>s.replace(/\s*\n+\s*/g, ' ')\<close>: a match starts where a run of white space with a
      line feed in it starts and takes the whole run\<close>
  "collapseNewlines [] = []"
| "collapseNewlines (c # cs) =
     (if is_space c then
        (if nl \<in> set (takeWhile is_space (c # cs))
         then CHR '' '' # collapseNewlines (dropWhile is_space cs)
         else takeWhile is_space (c # cs) @ collapseNewlines (dropWhile is_space cs))
      else c # collapseNewlines cs)"
  by pat_completeness auto
termination
  by (relation "measure length") (auto simp: less_Suc_eq_le length_dropWhile_le)

definition npmStep :: "string \<Rightarrow> string" where
  \<comment> \<open>the check for a repeated npm or npx command: when the pattern matches, the text of
      its group 4 is removed where it first occurs\<close>
  "npmStep cleanedCommand =
     (case rxSearch npmPattern cleanedCommand of
        None \<Rightarrow> cleanedCommand
      | Some npmMatch \<Rightarrow>
          replaceFirst cleanedCommand (case npmMatch 4 of None \<Rightarrow> [] | Some g \<Rightarrow> g) [])"

definition shadcnStep :: "string \<Rightarrow> string" where
  \<comment> \<open>the check for a repeated shadcn command: when the pattern matches, the command
      becomes its groups 1 and 2\<close>
  "shadcnStep cleanedCommand =
     (case rxSearch shadcnPattern cleanedCommand of
        None \<Rightarrow> cleanedCommand
      | Some shadcnMatch \<Rightarrow>
          (case shadcnMatch 1 of None \<Rightarrow> [] | Some g \<Rightarrow> g)
            @ (case shadcnMatch 2 of None \<Rightarrow> [] | Some g \<Rightarrow> g))"

definition dedupeCommand :: "string \<Rightarrow> string" where
  \<comment> \<open>the check for duplicated commands, for a command longer than 20 characters\<close>
  "dedupeCommand cleanedCommand =
     (let halfLength = length cleanedCommand div 2;
          firstHalf = take halfLength cleanedCommand;
          secondHalf = drop halfLength cleanedCommand
      in if prefix (take (min 20 (length firstHalf)) firstHalf) secondHalf then trim firstHalf
         else shadcnStep (npmStep cleanedCommand))"

definition cleanCommand :: "string \<Rightarrow> string" where
  \<comment> \<open>\<open>cleanedCommand\<close> as \<open>executeCommand\<close> computes it from \<open>command\<close>\<close>
  "cleanCommand command =
     (let cleanedCommand = collapseNewlines (trim command)
      in if length cleanedCommand > 20 then dedupeCommand cleanedCommand else cleanedCommand)"

text \<open>
  The process runner is given by what \<open>execa\<close> does with the command line: it completes
  with the collected output, or fails (exit code, timeout) with the output and message of
  the error. \<open>executeCommand\<close> splits the cleaned command at the spaces into the program
  and its arguments, runs them in the project directory, and returns the cleaned command
  with the outcome in both cases.
\<close>

record CommandOutput =
  co_success :: bool
  co_command :: string
  co_stdout :: string
  co_stderr :: string

datatype ExecaOutcome = Exited string string | Failed string string string

definition executeCommand ::
  "(string \<Rightarrow> string \<Rightarrow> string list \<Rightarrow> ExecaOutcome) \<Rightarrow> string \<Rightarrow> string \<Rightarrow> CommandOutput" where
  "executeCommand execa projectDir command =
     (let cleanedCommand = cleanCommand command;
          parts = splitOn CHR '' '' cleanedCommand
      in case execa projectDir (hd parts) (tl parts) of
           Exited outputBuffer stderrBuffer \<Rightarrow>
             \<lparr>co_success = True, co_command = cleanedCommand,
              co_stdout = outputBuffer, co_stderr = stderrBuffer\<rparr>
         | Failed stdout stderr message \<Rightarrow>
             \<lparr>co_success = False, co_command = cleanedCommand,
              co_stdout = stdout, co_stderr = (if stderr \<noteq> [] then stderr else message)\<rparr>)"



section \<open>The action queue (ActionQueue)\<close>

record QueuedAction =
  qa_type :: ActionType
  qa_path :: "string option"
  qa_content :: string
  qa_processed :: bool
  qa_retryCount :: nat
  qa_id :: string

record CommandResult =
  cr_command :: string
  cr_success :: bool
  cr_stdout :: string
  cr_stderr :: string
  cr_actionId :: string

text \<open>
  The queue runs on one thread. Between two \<open>await\<close>s its code runs without interruption;
  at an \<open>await\<close> other code may run: the parser may add actions, a caller may pause,
  resume or wait, a timer may fire. \<open>loop\<close> is the \<open>await\<close> at which the running call of
  \<open>startProcessing\<close> is suspended (\<open>None\<close> when no call is between setting
  \<open>isProcessing\<close> and its \<open>finally\<close> block):
  \<^item> \<open>Sleeping\<close>: the one-second sleep taken when a command is pending;
  \<^item> \<open>InCommand\<close>: \<open>await executeCommand(...)\<close>;
  \<^item> \<open>Settling\<close>: the two-second delay after a command;
  \<^item> \<open>InApply\<close>: \<open>await applyFileChange(...)\<close>;
  \<^item> \<open>InText\<close>: \<open>await this.firestoreLogger?.logAssistantMessage(...)\<close>;
  \<^item> \<open>Returned b\<close>: \<open>processAction\<close> has returned \<open>b\<close> and \<open>await this.processAction(action)\<close>
    has not resumed yet.
  \<open>waiters\<close> is the length of \<open>queueEmptyResolvers\<close>; \<open>resolved\<close> counts the promises of
  \<open>waitUntilComplete\<close> that have been resolved and \<open>timers\<close> the restart timers set by the
  \<open>finally\<close> block.
\<close>

datatype LoopPoint = Sleeping | InCommand | Settling | InApply | InText | Returned bool

record ActionQueue =
  queue :: "QueuedAction list"
  isProcessing :: bool
  paused :: bool
  projectDir :: string
  pendingCommands :: "string set"
  commandHistory :: "CommandResult list"
  waiters :: nat
  resolved :: nat
  timers :: nat
  loop :: "LoopPoint option"

definition QUEUE_MAX_RETRIES :: nat where
  \<comment> \<open>\<open>private MAX_RETRIES = 3\<close> of the class \<open>ActionQueue\<close>\<close>
  "QUEUE_MAX_RETRIES = 3"

definition newActionQueue :: "string \<Rightarrow> ActionQueue" where
  "newActionQueue dir =
     \<lparr>queue = [], isProcessing = False, paused = False, projectDir = dir, pendingCommands = {},
      commandHistory = [], waiters = 0, resolved = 0, timers = 0, loop = None\<rparr>"

definition hasPendingCommands :: "ActionQueue \<Rightarrow> bool" where
  "hasPendingCommands s = (pendingCommands s \<noteq> {})"

definition checkIfComplete :: "ActionQueue \<Rightarrow> ActionQueue" where
  \<comment> \<open>when the queue is complete, every waiting promise is resolved\<close>
  "checkIfComplete s =
     (if queue s = [] \<and> \<not> hasPendingCommands s \<and> \<not> isProcessing s \<and> waiters s > 0
      then s\<lparr>resolved := resolved s + waiters s, waiters := 0\<rparr> else s)"

definition processActionStart :: "ActionQueue \<Rightarrow> ActionQueue" where
  \<comment> \<open>\<open>processAction(queue[0])\<close> up to its first \<open>await\<close> or its immediate return\<close>
  "processActionStart s =
     (let action = hd (queue s) in
      case qa_type action of
        COMMAND \<Rightarrow>
          if hasPendingCommands s then s\<lparr>loop := Some (Returned False)\<rparr>
          else s\<lparr>pendingCommands := insert (qa_id action) (pendingCommands s),
                 loop := Some InCommand\<rparr>
      | TEXT \<Rightarrow> s\<lparr>loop := Some InText\<rparr>
      | _ \<Rightarrow>
          if qa_path action = None \<or> qa_path action = Some [] then s\<lparr>loop := Some (Returned False)\<rparr>
          else s\<lparr>loop := Some InApply\<rparr>)"

text \<open>
  \<open>iterate\<close> is the loop \<open>while (this.queue.length > 0 && !this.paused)\<close> from the test of
  its condition to the next \<open>await\<close>, or through the \<open>finally\<close> block when the loop ends.
  The loop body throws nothing (\<open>processAction\<close> catches every error), so \<open>finally\<close> is
  reached from the loop condition only.
\<close>

function iterate :: "ActionQueue \<Rightarrow> ActionQueue" where
  "iterate s =
     (if queue s \<noteq> [] \<and> \<not> paused s then
        (let action = hd (queue s) in
         if hasPendingCommands s then s\<lparr>loop := Some Sleeping\<rparr>
         else if qa_retryCount action \<ge> QUEUE_MAX_RETRIES then iterate (s\<lparr>queue := tl (queue s)\<rparr>)
         else if \<not> qa_processed action then processActionStart s
         else if qa_type action \<noteq> COMMAND \<or> qa_id action \<notin> pendingCommands s
              then iterate (s\<lparr>queue := tl (queue s)\<rparr>)
              else iterate s)
      else
        (let s1 = checkIfComplete (s\<lparr>isProcessing := False, loop := None\<rparr>) in
         if hasPendingCommands s1 then s1\<lparr>timers := Suc (timers s1)\<rparr>
         else if queue s1 \<noteq> [] \<and> \<not> paused s1 then iterate (s1\<lparr>isProcessing := True\<rparr>)
         else s1))"
  by pat_completeness auto
termination
  by (relation "measure (\<lambda>s. length (queue s))")
     (auto simp: hasPendingCommands_def checkIfComplete_def split: if_splits)

declare iterate.simps [simp del]

definition startProcessing :: "ActionQueue \<Rightarrow> ActionQueue" where
  "startProcessing s =
     (if isProcessing s \<or> paused s then s
      else if queue s = [] then checkIfComplete s
      else iterate (s\<lparr>isProcessing := True\<rparr>))"

definition addActionQ ::
  "ActionType \<Rightarrow> string option \<Rightarrow> string \<Rightarrow> string \<Rightarrow> ActionQueue \<Rightarrow> ActionQueue" where
  \<comment> \<open>\<open>addAction(type, path, content)\<close>; \<open>ident\<close> is the identifier \<open>generateActionId\<close> makes
      up from the clock and a random number\<close>
  "addActionQ ty p content ident s =
     (let action = \<lparr>qa_type = ty, qa_path = p, qa_content = content, qa_processed = False,
                     qa_retryCount = 0, qa_id = ident\<rparr>;
          s1 = s\<lparr>queue := queue s @ [action]\<rparr>
      in if \<not> isProcessing s1 \<and> \<not> paused s1 then startProcessing s1 else s1)"

definition pauseQ :: "ActionQueue \<Rightarrow> ActionQueue" where
  "pauseQ s = (if \<not> paused s then s\<lparr>paused := True\<rparr> else s)"

definition resumeQ :: "ActionQueue \<Rightarrow> ActionQueue" where
  "resumeQ s =
     (if paused s then
        (let s1 = s\<lparr>paused := False\<rparr> in
         if (queue s1 \<noteq> [] \<or> hasPendingCommands s1) \<and> \<not> isProcessing s1
         then startProcessing s1 else s1)
      else s)"

definition waitUntilComplete :: "ActionQueue \<Rightarrow> ActionQueue" where
  \<comment> \<open>the call either resolves at once or leaves a resolver behind\<close>
  "waitUntilComplete s =
     (if queue s = [] \<and> \<not> hasPendingCommands s then s\<lparr>resolved := Suc (resolved s)\<rparr>
      else s\<lparr>waiters := Suc (waiters s)\<rparr>)"

definition waitTimeout :: "ActionQueue \<Rightarrow> ActionQueue" where
  \<comment> \<open>the timeout of a waiting \<open>waitUntilComplete\<close>: its resolver is removed and called\<close>
  "waitTimeout s =
     (if waiters s > 0 then s\<lparr>waiters := waiters s - 1, resolved := Suc (resolved s)\<rparr> else s)"

definition restartTimer :: "ActionQueue \<Rightarrow> ActionQueue" where
  \<comment> \<open>the callback of the timer set in the \<open>finally\<close> block\<close>
  "restartTimer s =
     (if timers s > 0 then
        (let s1 = s\<lparr>timers := timers s - 1\<rparr> in
         if \<not> isProcessing s1 \<and> \<not> paused s1 \<and> (queue s1 \<noteq> [] \<or> hasPendingCommands s1)
         then startProcessing s1 else s1)
      else s)"

subsection \<open>Resuming the dispatch loop\<close>

definition commandResultOf :: "ActionQueue \<Rightarrow> ExecaOutcome \<Rightarrow> CommandResult" where
  \<comment> \<open>the entry pushed to \<open>commandHistory\<close>: the result of \<open>executeCommand\<close> on the content
      of the action, with the identifier of the action\<close>
  "commandResultOf s outcome =
     (let action = hd (queue s);
          r = executeCommand (\<lambda>dir cmd args. outcome) (projectDir s) (qa_content action)
      in \<lparr>cr_command = co_command r, cr_success = co_success r, cr_stdout = co_stdout r,
          cr_stderr = co_stderr r, cr_actionId = qa_id action\<rparr>)"

definition commandDone :: "ExecaOutcome \<Rightarrow> ActionQueue \<Rightarrow> ActionQueue" where
  \<comment> \<open>\<open>executeCommand\<close> has returned: its result is pushed and the settle delay starts\<close>
  "commandDone outcome s =
     s\<lparr>commandHistory := commandHistory s @ [commandResultOf s outcome], loop := Some Settling\<rparr>"

definition commandThrew :: "ActionQueue \<Rightarrow> ActionQueue" where
  \<comment> \<open>the catch around \<open>executeCommand\<close>\<close>
  "commandThrew s =
     (checkIfComplete (s\<lparr>pendingCommands := pendingCommands s - {qa_id (hd (queue s))}\<rparr>))
       \<lparr>loop := Some (Returned False)\<rparr>"

definition settled :: "ActionQueue \<Rightarrow> ActionQueue" where
  \<comment> \<open>after the settle delay: the command is no longer pending, \<open>processAction\<close> returns true\<close>
  "settled s =
     (checkIfComplete (s\<lparr>pendingCommands := pendingCommands s - {qa_id (hd (queue s))}\<rparr>))
       \<lparr>loop := Some (Returned True)\<rparr>"

definition markResult :: "bool \<Rightarrow> ActionQueue \<Rightarrow> ActionQueue \<times> bool" where
  \<comment> \<open>what the loop does with the result of \<open>processAction\<close>, up to the test that removes a
      processed action; the second component tells whether the loop took \<open>continue\<close>\<close>
  "markResult ok s =
     (case queue s of
        [] \<Rightarrow> (s, True)
      | action # rest \<Rightarrow>
          if ok then (s\<lparr>queue := action\<lparr>qa_processed := True\<rparr> # rest\<rparr>, False)
          else
            (let action1 = action\<lparr>qa_retryCount := qa_retryCount action + 1\<rparr> in
             if qa_retryCount action1 \<ge> QUEUE_MAX_RETRIES
             then (s\<lparr>queue := action1\<lparr>qa_processed := True\<rparr> # rest\<rparr>, False)
             else (s\<lparr>queue := rest @ [action1]\<rparr>, True)))"

definition shiftProcessed :: "ActionQueue \<Rightarrow> ActionQueue" where
  \<comment> \<open>\<open>if (action.processed && (action.type !== 'COMMAND' || !this.pendingCommands.has(action.id)))
      this.queue.shift()\<close>\<close>
  "shiftProcessed s =
     (case queue s of
        [] \<Rightarrow> s
      | action # rest \<Rightarrow>
          if qa_processed action \<and> (qa_type action \<noteq> COMMAND \<or> qa_id action \<notin> pendingCommands s)
          then s\<lparr>queue := rest\<rparr> else s)"

definition handleResult :: "bool \<Rightarrow> ActionQueue \<Rightarrow> ActionQueue" where
  "handleResult ok s =
     (case markResult ok s of (s1, continued) \<Rightarrow> if continued then s1 else shiftProcessed s1)"

datatype Outcome = Fulfilled | Rejected | Ran ExecaOutcome

definition resumeLoop :: "Outcome \<Rightarrow> ActionQueue \<Rightarrow> ActionQueue" where
  \<comment> \<open>the loop runs on from the \<open>await\<close> it is suspended at, given how the awaited promise
      settled, up to its next \<open>await\<close>\<close>
  "resumeLoop outcome s =
     (case loop s of
        None \<Rightarrow> s
      | Some Sleeping \<Rightarrow> iterate s
      | Some InCommand \<Rightarrow> (case outcome of Ran r \<Rightarrow> commandDone r s | _ \<Rightarrow> commandThrew s)
      | Some Settling \<Rightarrow> settled s
      | Some InApply \<Rightarrow>
          (case outcome of
             Rejected \<Rightarrow> s\<lparr>loop := Some (Returned False)\<rparr>
           | _ \<Rightarrow> (checkIfComplete s)\<lparr>loop := Some (Returned True)\<rparr>)
      | Some InText \<Rightarrow>
          (case outcome of
             Rejected \<Rightarrow> s\<lparr>loop := Some (Returned False)\<rparr>
           | _ \<Rightarrow> (checkIfComplete s)\<lparr>loop := Some (Returned True)\<rparr>)
      | Some (Returned ok) \<Rightarrow> iterate (handleResult ok s))"

inductive step :: "ActionQueue \<Rightarrow> ActionQueue \<Rightarrow> bool" where
  step_add: "step s (addActionQ ty p content ident s)"
| step_pause: "step s (pauseQ s)"
| step_resume: "step s (resumeQ s)"
| step_start: "step s (startProcessing s)"
| step_timer: "step s (restartTimer s)"
| step_wait: "step s (waitUntilComplete s)"
| step_timeout: "step s (waitTimeout s)"
| step_loop: "loop s \<noteq> None \<Longrightarrow> step s (resumeLoop outcome s)"

inductive reachable :: "ActionQueue \<Rightarrow> bool" where
  reach_init: "reachable (newActionQueue dir)"
| reach_step: "reachable s \<Longrightarrow> step s s' \<Longrightarrow> reachable s'"

fun runLoop :: "Outcome list \<Rightarrow> ActionQueue \<Rightarrow> ActionQueue" where
  \<comment> \<open>the loop left to itself: it is resumed with the given outcomes, one per \<open>await\<close>,
      until it has ended\<close>
  "runLoop [] s = s"
| "runLoop (outcome # outcomes) s =
     (case loop s of None \<Rightarrow> s | Some pt \<Rightarrow> runLoop outcomes (resumeLoop outcome s))"

subsection \<open>The cleaned command\<close>

lemma nl_space: "is_space nl" by (simp add: is_space_def nl_def)

lemma collapseNewlines_no_nl: "nl \<notin> set (collapseNewlines s)"
proof (induction s rule: collapseNewlines.induct)
  case 1 then show ?case by simp
next
  case (2 c cs)
  show ?case
  proof (cases "is_space c")
    case True
    then show ?thesis using 2 by (auto simp: nl_def dest: set_takeWhileD)
  next
    case False
    then have "c \<noteq> nl" using nl_space by auto
    with False 2 show ?thesis by simp
  qed
qed

lemma trim_subset: "set (trim s) \<subseteq> set s"
proof
  fix x assume "x \<in> set (trim s)"
  then have "x \<in> set (dropWhile is_space (rev (dropWhile is_space s)))" by (simp add: trim_def)
  then have "x \<in> set (rev (dropWhile is_space s))" by (rule set_dropWhileD)
  then have "x \<in> set (dropWhile is_space s)" by simp
  then show "x \<in> set s" by (rule set_dropWhileD)
qed

definition capsWithin :: "char set \<Rightarrow> (nat \<rightharpoonup> string) \<Rightarrow> bool" where
  "capsWithin S caps = (\<forall>n g. caps n = Some g \<longrightarrow> set g \<subseteq> S)"

lemma rxMatch_within:
  "capsWithin S caps \<Longrightarrow> set s \<subseteq> S \<Longrightarrow> (caps1, r1) \<in> set (rxMatch r caps s)
   \<Longrightarrow> capsWithin S caps1 \<and> set r1 \<subseteq> S"
proof (induction r arbitrary: caps s caps1 r1)
  case (Lit l)
  then show ?case by (auto split: if_splits dest: in_set_dropD)
next
  case (PlusCls P)
  then show ?case by (auto dest: in_set_dropD)
next
  case (Seq a b)
  from Seq.prems(3)
  have "\<exists>x\<in>set (rxMatch a caps s). (caps1, r1) \<in> set (case x of (c, r) \<Rightarrow> rxMatch b c r)"
    by simp
  then obtain x where x: "x \<in> set (rxMatch a caps s)"
    "(caps1, r1) \<in> set (case x of (c, r) \<Rightarrow> rxMatch b c r)" by blast
  show ?case
  proof (cases x)
    case (Pair c2 r2)
    from x(1) have m1: "(c2, r2) \<in> set (rxMatch a caps s)" unfolding Pair .
    from x(2) have m2: "(caps1, r1) \<in> set (rxMatch b c2 r2)" unfolding Pair prod.case .
    from Seq.IH(1)[OF Seq.prems(1,2) m1] have "capsWithin S c2" "set r2 \<subseteq> S" by blast+
    from Seq.IH(2)[OF this m2] show ?thesis .
  qed
next
  case (Alt a b)
  from Alt.prems(3) have "(caps1, r1) \<in> set (rxMatch a caps s) \<or> (caps1, r1) \<in> set (rxMatch b caps s)"
    by simp
  then show ?case using Alt.IH(1)[OF Alt.prems(1,2)] Alt.IH(2)[OF Alt.prems(1,2)] by blast
next
  case (Grp n a)
  from Grp.prems(3)
  have "\<exists>x\<in>set (rxMatch a caps s).
          (caps1, r1) = (case x of (c, r) \<Rightarrow> (c(n \<mapsto> take (length s - length r) s), r))"
    by (simp add: image_iff)
  then obtain x where x: "x \<in> set (rxMatch a caps s)"
    "(caps1, r1) = (case x of (c, r) \<Rightarrow> (c(n \<mapsto> take (length s - length r) s), r))" by blast
  show ?case
  proof (cases x)
    case (Pair c2 r2)
    from x(1) have m1: "(c2, r2) \<in> set (rxMatch a caps s)" unfolding Pair .
    from x(2) have e: "caps1 = c2(n \<mapsto> take (length s - length r2) s)" "r1 = r2"
      unfolding Pair prod.case by blast+
    from Grp.IH[OF Grp.prems(1,2) m1] have c: "capsWithin S c2" "set r2 \<subseteq> S" by blast+
    have "set (take (length s - length r2) s) \<subseteq> S"
      using Grp.prems(2) set_take_subset[of "length s - length r2" s] by blast
    with c show ?thesis unfolding e capsWithin_def by (simp only: fun_upd_apply split: if_splits) blast
  qed
next
  case (Back n)
  show ?case
  proof (cases "caps n")
    case None
    with Back show ?thesis by simp
  next
    case (Some g)
    with Back.prems(3) have "caps1 = caps" "r1 = drop (length g) s" by (auto split: if_splits)
    with Back.prems(1,2) show ?thesis using set_drop_subset[of "length g" s] by blast
  qed
qed

lemma rxSearch_within: "rxSearch r s = Some caps \<Longrightarrow> capsWithin (set s) caps"
proof (induction s)
  case Nil
  then obtain rest where "(caps, rest) \<in> set (rxMatch r Map.empty [])"
    by (auto split: list.splits)
  from rxMatch_within[OF _ _ this, of "{}"] show ?case by (simp add: capsWithin_def)
next
  case (Cons c cs)
  show ?case
  proof (cases "rxMatch r Map.empty (c # cs)")
    case Nil
    with Cons have "capsWithin (set cs) caps" by simp
    then show ?thesis by (auto simp: capsWithin_def)
  next
    case (Cons m ms)
    with Cons.prems have "(caps, snd m) \<in> set (rxMatch r Map.empty (c # cs))"
      by (cases m) auto
    from rxMatch_within[OF _ _ this, of "set (c # cs)"] show ?thesis by (simp add: capsWithin_def)
  qed
qed

lemma capsWithin_group:
  "capsWithin S caps \<Longrightarrow> set (case caps n of None \<Rightarrow> [] | Some g \<Rightarrow> g) \<subseteq> S"
  by (cases "caps n") (auto simp: capsWithin_def)

lemma replaceFirst_subset: "set (replaceFirst s pat []) \<subseteq> set s"
  unfolding replaceFirst_def by (auto split: option.splits dest: in_set_takeD in_set_dropD)

lemma npmStep_subset: "set (npmStep s) \<subseteq> set s"
  unfolding npmStep_def using replaceFirst_subset by (auto split: option.splits)

lemma shadcnStep_subset: "set (shadcnStep s) \<subseteq> set s"
proof (cases "rxSearch shadcnPattern s")
  case None then show ?thesis by (simp add: shadcnStep_def)
next
  case (Some caps)
  from rxSearch_within[OF this] have w: "capsWithin (set s) caps" .
  from capsWithin_group[OF w, of 1] capsWithin_group[OF w, of 2]
  show ?thesis unfolding shadcnStep_def Some by auto
qed

lemma dedupeCommand_subset: "set (dedupeCommand s) \<subseteq> set s"
proof -
  have 2: "set (shadcnStep (npmStep s)) \<subseteq> set s"
    using shadcnStep_subset[of "npmStep s"] npmStep_subset[of s] by blast
  have 1: "set (trim (take (length s div 2) s)) \<subseteq> set s"
    using trim_subset[of "take (length s div 2) s"] by (auto dest: in_set_takeD)
  show ?thesis unfolding dedupeCommand_def Let_def using 1 2 by auto
qed

lemma cleanCommand_no_nl: "nl \<notin> set (cleanCommand c)"
  unfolding cleanCommand_def Let_def
  using collapseNewlines_no_nl[of "trim c"] dedupeCommand_subset[of "collapseNewlines (trim c)"]
  by auto

lemma executeCommand_command: "co_command (executeCommand execa dir c) = cleanCommand c"
  unfolding executeCommand_def Let_def by (auto split: ExecaOutcome.splits)

lemma takeWhile_stop: "\<not> P x \<Longrightarrow> takeWhile P (a @ x # r) = takeWhile P a"
  by (induction a) auto

lemma dropWhile_stop: "\<not> P x \<Longrightarrow> dropWhile P (a @ x # r) = dropWhile P a @ x # r"
  by (induction a) auto

lemma collapseNewlines_nonspace:
  "\<not> is_space x \<Longrightarrow> collapseNewlines (a @ x # r) = collapseNewlines (a @ [x]) @ collapseNewlines r"
proof (induction a rule: collapseNewlines.induct)
  case 1
  then show ?case by simp
next
  case (2 c cs)
  show ?case
  proof (cases "is_space c")
    case False
    with 2 show ?thesis by simp
  next
    case True
    have tw: "takeWhile is_space ((c # cs) @ x # r) = takeWhile is_space (c # cs)"
      "takeWhile is_space ((c # cs) @ [x]) = takeWhile is_space (c # cs)"
      using "2.prems" by (rule takeWhile_stop)+
    have dw: "dropWhile is_space (cs @ x # r) = dropWhile is_space cs @ x # r"
      "dropWhile is_space (cs @ [x]) = dropWhile is_space cs @ [x]"
      using "2.prems" by (rule dropWhile_stop)+
    show ?thesis
    proof (cases "nl \<in> set (takeWhile is_space (c # cs))")
      case t: True
      from "2.IH"(1)[OF True t "2.prems"] True t tw dw show ?thesis
        by (simp del: takeWhile.simps)
    next
      case f: False
      from "2.IH"(2)[OF True f "2.prems"] True f tw dw show ?thesis
        by (simp del: takeWhile.simps)
    qed
  qed
qed

lemma collapseNewlines_run:
  assumes "list_all is_space w" "nl \<in> set w" "\<not> is_space y"
  shows "collapseNewlines (w @ y # b) = CHR '' '' # collapseNewlines (y # b)"
proof (cases w)
  case Nil with assms show ?thesis by simp
next
  case (Cons c cs)
  from assms(1,3) have tw: "takeWhile is_space (w @ y # b) = w" "dropWhile is_space (w @ y # b) = y # b"
    by (induction w) auto
  from Cons assms(1) have c: "is_space c" by simp
  from tw(2) c have dw: "dropWhile is_space (cs @ y # b) = y # b" unfolding Cons by simp
  show ?thesis using tw(1) dw c assms(2) unfolding Cons
    by (simp del: takeWhile.simps)
qed

lemma collapse_line_break:
  assumes "\<not> is_space x" "list_all is_space w" "nl \<in> set w" "\<not> is_space y"
  shows "collapseNewlines (a @ x # w @ y # b)
         = collapseNewlines (a @ [x]) @ CHR '' '' # collapseNewlines (y # b)"
  using collapseNewlines_nonspace[OF assms(1), of a "w @ y # b"] collapseNewlines_run[OF assms(2,3,4), of b]
  by simp

lemma collapseNewlines_id: "nl \<notin> set s \<Longrightarrow> collapseNewlines s = s"
proof (induction s rule: collapseNewlines.induct)
  case 1 then show ?case by simp
next
  case (2 c cs)
  show ?case
  proof (cases "is_space c")
    case False with 2 show ?thesis by simp
  next
    case True
    from "2.prems" have n: "nl \<notin> set (takeWhile is_space (c # cs))"
      by (auto dest: set_takeWhileD)
    have "nl \<notin> set (dropWhile is_space cs)" using "2.prems" by (auto dest: set_dropWhileD)
    from "2.IH"(2)[OF True n this] True n show ?thesis
      using takeWhile_dropWhile_id[of is_space "c # cs"] by (simp del: takeWhile.simps takeWhile_dropWhile_id)
  qed
qed

lemma dedupe_exact_repeat:
  assumes "20 < length (X @ X)"
  shows "dedupeCommand (X @ X) = trim X"
proof -
  have h: "length (X @ X) div 2 = length X" by simp
  have "prefix (take (min 20 (length X)) X) X" by (rule take_is_prefix)
  then show ?thesis unfolding dedupeCommand_def Let_def h by simp
qed

lemma trim_leading: "list_all is_space w \<Longrightarrow> trim (w @ s) = trim s"
  by (simp add: trim_def list_all_iff)

lemma trim_trailing:
  assumes w: "list_all is_space w"
  shows "trim (s @ w) = trim s"
proof (cases "list_all is_space s")
  case True
  from w have a: "dropWhile is_space w = []" by (simp add: list_all_iff)
  from True have b: "dropWhile is_space s = []" by (simp add: list_all_iff)
  from True have c: "dropWhile is_space (s @ w) = dropWhile is_space w"
    by (simp add: list_all_iff)
  show ?thesis by (simp only: trim_def c a b)
next
  case False
  then obtain x where "x \<in> set s" "\<not> is_space x" by (auto simp: list_all_iff)
  then have c: "dropWhile is_space (s @ w) = dropWhile is_space s @ w"
    by (rule dropWhile_append1)
  have "dropWhile is_space (rev w @ r) = dropWhile is_space r" for r
    using w by (intro dropWhile_append2) (simp add: list_all_iff)
  then show ?thesis by (simp only: trim_def c rev_append)
qed

lemma cleanCommand_surrounding:
  "list_all is_space w1 \<Longrightarrow> list_all is_space w2 \<Longrightarrow> cleanCommand (w1 @ c @ w2) = cleanCommand c"
  by (simp add: cleanCommand_def trim_leading trim_trailing)

subsection \<open>What the two patterns match\<close>

text \<open>
  \<open>rxSem\<close> says which texts a pattern matches, without the order in which the matcher
  tries them; \<open>rxMatch\<close> lists exactly these matches, and \<open>rxSearch\<close> finds a match when
  the text holds one. For the two patterns this gives the shape of the texts they find:
  \<open>npmRepeat\<close> and \<open>shadcnRepeat\<close>.
\<close>

definition sameCI :: "string \<Rightarrow> string \<Rightarrow> bool" where
  \<comment> \<open>the same text, letters compared without case\<close>
  "sameCI a b = (map lowerChar a = map lowerChar b)"

fun rxSem :: "Rx \<Rightarrow> (nat \<rightharpoonup> string) \<Rightarrow> string \<Rightarrow> (nat \<rightharpoonup> string) \<Rightarrow> bool" where
  \<comment> \<open>\<open>rxSem r caps w caps'\<close>: the pattern \<open>r\<close> matches exactly the text \<open>w\<close>, given the
      groups \<open>caps\<close> captured before, and leaves the groups \<open>caps'\<close>\<close>
  "rxSem (Lit l) caps w caps' = (caps' = caps \<and> sameCI w l)"
| "rxSem (PlusCls P) caps w caps' = (caps' = caps \<and> w \<noteq> [] \<and> list_all P w)"
| "rxSem (Seq a b) caps w caps' =
     (\<exists>w1 w2 caps1. w = w1 @ w2 \<and> rxSem a caps w1 caps1 \<and> rxSem b caps1 w2 caps')"
| "rxSem (Alt a b) caps w caps' = (rxSem a caps w caps' \<or> rxSem b caps w caps')"
| "rxSem (Grp n a) caps w caps' = (\<exists>caps1. rxSem a caps w caps1 \<and> caps' = caps1(n \<mapsto> w))"
| "rxSem (Back n) caps w caps' =
     (caps' = caps \<and> (case caps n of None \<Rightarrow> w = [] | Some g \<Rightarrow> sameCI w g))"

lemma prefixCI_iff: "prefixCI l s \<longleftrightarrow> (\<exists>w. s = w @ drop (length l) s \<and> sameCI w l)"
proof
  assume "prefixCI l s"
  then have "s = take (length l) s @ drop (length l) s \<and> sameCI (take (length l) s) l"
    by (simp add: prefixCI_def sameCI_def)
  then show "\<exists>w. s = w @ drop (length l) s \<and> sameCI w l" by blast
next
  assume "\<exists>w. s = w @ drop (length l) s \<and> sameCI w l"
  then obtain w where w: "s = w @ drop (length l) s" "sameCI w l" by blast
  from w(2) have len: "length w = length l" unfolding sameCI_def by (metis length_map)
  from w(1) have "take (length l) s = take (length l) (w @ drop (length l) s)" by simp
  with len have t: "take (length l) s = w" by simp
  from w(1) len have "length l \<le> length s" by (metis le_add1 length_append)
  with t w(2) show "prefixCI l s" by (simp add: prefixCI_def sameCI_def)
qed

lemma sameCI_length: "sameCI a b \<Longrightarrow> length a = length b"
  unfolding sameCI_def by (metis length_map)

lemma lit_match:
  "(caps', rest) \<in> set (if prefixCI l s then [(caps, drop (length l) s)] else [])
   \<longleftrightarrow> (\<exists>w. s = w @ rest \<and> caps' = caps \<and> sameCI w l)"
proof
  assume "(caps', rest) \<in> set (if prefixCI l s then [(caps, drop (length l) s)] else [])"
  then have p: "prefixCI l s" and e: "caps' = caps" "rest = drop (length l) s"
    by (auto split: if_splits)
  from p obtain w where "s = w @ drop (length l) s" "sameCI w l" unfolding prefixCI_iff by blast
  with e show "\<exists>w. s = w @ rest \<and> caps' = caps \<and> sameCI w l" by blast
next
  assume "\<exists>w. s = w @ rest \<and> caps' = caps \<and> sameCI w l"
  then obtain w where w: "s = w @ rest" "caps' = caps" "sameCI w l" by blast
  from w(3) have len: "length w = length l" by (rule sameCI_length)
  with w(1) have r: "rest = drop (length l) s" by simp
  with w have "prefixCI l s" unfolding prefixCI_iff by blast
  with r w(2) show "(caps', rest) \<in> set (if prefixCI l s then [(caps, drop (length l) s)] else [])"
    by simp
qed

lemma in_downto:
  "x \<in> set (map f (rev [1..<Suc n])) \<longleftrightarrow> (\<exists>k. 1 \<le> k \<and> k \<le> n \<and> x = f k)"
proof -
  have "set (rev [1..<Suc n]) = {k. 1 \<le> k \<and> k \<le> n}" by auto
  then have "set (map f (rev [1..<Suc n])) = f ` {k. 1 \<le> k \<and> k \<le> n}"
    by (simp only: set_map)
  then show ?thesis by auto
qed

lemma plus_match:
  "(caps', rest) \<in> set (map (\<lambda>k. (caps, drop k s)) (rev [1..<Suc (length (takeWhile P s))]))
   \<longleftrightarrow> (\<exists>w. s = w @ rest \<and> caps' = caps \<and> w \<noteq> [] \<and> list_all P w)"
proof
  assume "(caps', rest) \<in> set (map (\<lambda>k. (caps, drop k s)) (rev [1..<Suc (length (takeWhile P s))]))"
  then obtain k where k: "1 \<le> k" "k \<le> length (takeWhile P s)" "caps' = caps" "rest = drop k s"
    unfolding in_downto by auto
  have "length (takeWhile P s) \<le> length s" by (rule length_takeWhile_le)
  with k have ks: "k \<le> length s" by simp
  have "take k s = take k (takeWhile P s @ dropWhile P s)" by simp
  also have "\<dots> = take k (takeWhile P s)" using k(2) by (simp del: takeWhile_dropWhile_id)
  finally have "set (take k s) \<subseteq> set (takeWhile P s)" by (metis set_take_subset)
  then have "list_all P (take k s)" by (auto simp: list_all_iff dest: set_takeWhileD)
  moreover have "take k s \<noteq> []" using k(1) ks by (cases s) auto
  moreover have "s = take k s @ rest" using k(4) by simp
  ultimately show "\<exists>w. s = w @ rest \<and> caps' = caps \<and> w \<noteq> [] \<and> list_all P w"
    using k(3) by blast
next
  assume "\<exists>w. s = w @ rest \<and> caps' = caps \<and> w \<noteq> [] \<and> list_all P w"
  then obtain w where w: "s = w @ rest" "caps' = caps" "w \<noteq> []" "list_all P w" by blast
  from w(4) have "takeWhile P (w @ rest) = w @ takeWhile P rest"
    by (simp add: list_all_iff)
  then have "length w \<le> length (takeWhile P s)" unfolding w(1) by simp
  moreover from w(3) have "1 \<le> length w" by (cases w) auto
  moreover have "rest = drop (length w) s" unfolding w(1) by simp
  ultimately have "\<exists>k. 1 \<le> k \<and> k \<le> length (takeWhile P s) \<and> (caps', rest) = (caps, drop k s)"
    using w(2) by blast
  then show "(caps', rest) \<in> set (map (\<lambda>k. (caps, drop k s)) (rev [1..<Suc (length (takeWhile P s))]))"
    unfolding in_downto .
qed

lemma rxMatch_suffix: "(caps', rest) \<in> set (rxMatch r caps s) \<Longrightarrow> suffix rest s"
proof (induction r arbitrary: caps s caps' rest)
  case (Lit l)
  then show ?case by (auto split: if_splits simp: suffix_drop)
next
  case (PlusCls P)
  then show ?case by (auto simp: suffix_drop)
next
  case (Seq a b)
  from Seq.prems obtain c1 r1 where "(c1, r1) \<in> set (rxMatch a caps s)"
    "(caps', rest) \<in> set (rxMatch b c1 r1)" by auto
  with Seq.IH show ?case by (blast intro: suffix_order.trans)
next
  case (Alt a b)
  then show ?case by auto
next
  case (Grp n a)
  then show ?case by auto
next
  case (Back n)
  then show ?case by (auto split: option.splits if_splits simp: suffix_drop)
qed

lemma rxMatch_sem:
  "(caps', rest) \<in> set (rxMatch r caps s) \<longleftrightarrow> (\<exists>w. s = w @ rest \<and> rxSem r caps w caps')"
proof (induction r arbitrary: caps s caps' rest)
  case (Lit l)
  show ?case using lit_match[of caps' rest l s caps] by auto
next
  case (PlusCls P)
  show ?case using plus_match[of caps' rest caps s P] by auto
next
  case (Seq a b)
  show ?case
  proof
    assume "(caps', rest) \<in> set (rxMatch (Seq a b) caps s)"
    then obtain c1 r1 where 1: "(c1, r1) \<in> set (rxMatch a caps s)"
      and 2: "(caps', rest) \<in> set (rxMatch b c1 r1)" by auto
    from 1 Seq.IH(1) obtain w1 where w1: "s = w1 @ r1" "rxSem a caps w1 c1" by blast
    from 2 Seq.IH(2) obtain w2 where w2: "r1 = w2 @ rest" "rxSem b c1 w2 caps'" by blast
    from w1 w2 have "s = (w1 @ w2) @ rest \<and> rxSem (Seq a b) caps (w1 @ w2) caps'" by auto
    then show "\<exists>w. s = w @ rest \<and> rxSem (Seq a b) caps w caps'" by blast
  next
    assume "\<exists>w. s = w @ rest \<and> rxSem (Seq a b) caps w caps'"
    then obtain w1 w2 c1 where s: "s = (w1 @ w2) @ rest" and a: "rxSem a caps w1 c1"
      and b: "rxSem b c1 w2 caps'" by auto
    from s a have "(c1, w2 @ rest) \<in> set (rxMatch a caps s)" using Seq.IH(1) by auto
    moreover from b have "(caps', rest) \<in> set (rxMatch b c1 (w2 @ rest))" using Seq.IH(2) by auto
    ultimately show "(caps', rest) \<in> set (rxMatch (Seq a b) caps s)" by force
  qed
next
  case (Alt a b)
  show ?case using Alt.IH by auto
next
  case (Grp n a)
  show ?case
  proof
    assume "(caps', rest) \<in> set (rxMatch (Grp n a) caps s)"
    then obtain c1 where 1: "(c1, rest) \<in> set (rxMatch a caps s)"
      and c: "caps' = c1(n \<mapsto> take (length s - length rest) s)" by auto
    from 1 Grp.IH obtain w where w: "s = w @ rest" "rxSem a caps w c1" by blast
    from w(1) have "take (length s - length rest) s = w" by simp
    with c w show "\<exists>w. s = w @ rest \<and> rxSem (Grp n a) caps w caps'" by auto
  next
    assume "\<exists>w. s = w @ rest \<and> rxSem (Grp n a) caps w caps'"
    then obtain w c1 where w: "s = w @ rest" "rxSem a caps w c1" "caps' = c1(n \<mapsto> w)" by auto
    from w(1,2) have 1: "(c1, rest) \<in> set (rxMatch a caps s)" using Grp.IH by blast
    from w(1) have "take (length s - length rest) s = w" by simp
    with 1 w(3) show "(caps', rest) \<in> set (rxMatch (Grp n a) caps s)" by force
  qed
next
  case (Back n)
  show ?case
  proof (cases "caps n")
    case None
    then show ?thesis by auto
  next
    case (Some g)
    then show ?thesis using lit_match[of caps' rest g s caps] by auto
  qed
qed

lemma rxSearch_sound:
  "rxSearch r s = Some caps \<Longrightarrow> \<exists>pre w post. s = pre @ w @ post \<and> rxSem r Map.empty w caps"
proof (induction s)
  case Nil
  then obtain rest where "(caps, rest) \<in> set (rxMatch r Map.empty [])"
    by (auto split: list.splits)
  then obtain w where "[] = w @ rest" "rxSem r Map.empty w caps" unfolding rxMatch_sem by blast
  then show ?case by (metis append_Nil)
next
  case (Cons c cs)
  show ?case
  proof (cases "rxMatch r Map.empty (c # cs)")
    case Nil
    with Cons.prems have "rxSearch r cs = Some caps" by simp
    from Cons.IH[OF this] obtain pre w post where "cs = pre @ w @ post" "rxSem r Map.empty w caps"
      by blast
    then have "c # cs = (c # pre) @ w @ post \<and> rxSem r Map.empty w caps" by simp
    then show ?thesis by blast
  next
    case (Cons m ms)
    with Cons.prems obtain rest where "m = (caps, rest)" by (cases m) auto
    with Cons have "(caps, rest) \<in> set (rxMatch r Map.empty (c # cs))" by simp
    then obtain w where "c # cs = w @ rest" "rxSem r Map.empty w caps" unfolding rxMatch_sem by blast
    then have "c # cs = [] @ w @ rest \<and> rxSem r Map.empty w caps" by simp
    then show ?thesis by blast
  qed
qed

lemma rxSearch_complete:
  "rxSem r Map.empty w caps \<Longrightarrow> \<exists>caps'. rxSearch r (pre @ w @ post) = Some caps'"
proof (induction pre)
  case Nil
  from Nil have "(caps, post) \<in> set (rxMatch r Map.empty (w @ post))" unfolding rxMatch_sem by blast
  then obtain m ms where "rxMatch r Map.empty (w @ post) = m # ms"
    by (cases "rxMatch r Map.empty (w @ post)") auto
  then show ?case by (cases "w @ post"; cases m) auto
next
  case (Cons c pre)
  from Cons.IH[OF Cons.prems] obtain caps' where "rxSearch r (pre @ w @ post) = Some caps'" ..
  then show ?case by (cases "rxMatch r Map.empty (c # pre @ w @ post)") (auto split: prod.splits)
qed

definition blank :: "string \<Rightarrow> bool" where
  \<comment> \<open>white space, at least one character: what \<open>\s+\<close> matches\<close>
  "blank w = (w \<noteq> [] \<and> list_all is_space w)"

definition classText :: "(char \<Rightarrow> bool) \<Rightarrow> string \<Rightarrow> bool" where
  \<comment> \<open>characters of a class, at least one\<close>
  "classText P w = (w \<noteq> [] \<and> list_all P w)"

definition litThen :: "string \<Rightarrow> (string \<Rightarrow> bool) \<Rightarrow> string \<Rightarrow> bool" where
  \<comment> \<open>the word \<open>l\<close>, in upper or lower case, and then a text with \<open>Q\<close>\<close>
  "litThen l Q w = (\<exists>a b. w = a @ b \<and> sameCI a l \<and> Q b)"

definition blankThen :: "(string \<Rightarrow> bool) \<Rightarrow> string \<Rightarrow> bool" where
  \<comment> \<open>white space and then a text with \<open>Q\<close>\<close>
  "blankThen Q w = (\<exists>a b. w = a @ b \<and> blank a \<and> Q b)"

definition npmHead :: "string \<Rightarrow> bool" where
  \<comment> \<open>\<open>npm install\<close>, \<open>npm run\<close> or \<open>npx\<close> with the name of a tool\<close>
  "npmHead g =
     (litThen ''npm'' (blankThen (\<lambda>b. sameCI b ''install'' \<or> sameCI b ''run'')) g
      \<or> litThen ''npx''
           (blankThen (classText (\<lambda>c. wordChar c \<or> c = CHR ''@'' \<or> c = CHR ''.'' \<or> c = CHR ''-''))) g)"

definition npmRepeat :: "string \<Rightarrow> string \<Rightarrow> string \<Rightarrow> string \<Rightarrow> bool" where
  \<comment> \<open>\<open>text\<close> holds the head \<open>g1\<close> with the arguments \<open>g3\<close> and, right after them, the part
      \<open>g4\<close> that repeats the two\<close>
  "npmRepeat text g1 g3 g4 =
     (\<exists>pre w1 w2 h w3 a post.
        text = pre @ g1 @ w1 @ g3 @ g4 @ post \<and> g4 = w2 @ h @ w3 @ a
        \<and> npmHead g1 \<and> blank w1
        \<and> classText (\<lambda>c. wordChar c \<or> is_space c \<or> c = CHR ''@'' \<or> c = CHR ''.'' \<or> c = CHR ''-'') g3
        \<and> blank w2 \<and> sameCI h g1 \<and> blank w3 \<and> sameCI a g3)"

fun wordsThen :: "string list \<Rightarrow> (string \<Rightarrow> bool) \<Rightarrow> string \<Rightarrow> bool" where
  \<comment> \<open>the words of the list with white space between them, and right after the last word
      a text with \<open>Q\<close>\<close>
  "wordsThen [] Q = Q"
| "wordsThen [l] Q = litThen l Q"
| "wordsThen (l # ls) Q = litThen l (blankThen (wordsThen ls Q))"

definition shadcnHead :: "string \<Rightarrow> bool" where
  \<comment> \<open>\<open>npx shadcn@latest add --yes --overwrite --path=\<close> with a path\<close>
  "shadcnHead =
     wordsThen [''npx'', ''shadcn@latest'', ''add'', ''--yes'', ''--overwrite'', ''--path='']
       (classText (\<lambda>c. wordChar c \<or> c = CHR ''/'' \<or> c = CHR ''.'' \<or> c = CHR ''-''))"

definition shadcnRepeat :: "string \<Rightarrow> string \<Rightarrow> string \<Rightarrow> bool" where
  \<comment> \<open>\<open>text\<close> holds the head \<open>g1\<close>, the component names \<open>g2\<close> and the head once more\<close>
  "shadcnRepeat text g1 g2 =
     (\<exists>pre w h post.
        text = pre @ g1 @ g2 @ w @ h @ post
        \<and> shadcnHead g1
        \<and> blankThen (classText (\<lambda>c. wordChar c \<or> is_space c \<or> c = CHR ''-'')) g2
        \<and> blank w \<and> sameCI h g1)"

lemma rxSem_SeqI:
  "rxSem a caps w1 caps1 \<Longrightarrow> rxSem b caps1 w2 caps2 \<Longrightarrow> rxSem (Seq a b) caps (w1 @ w2) caps2"
  by auto

lemma rxSem_SeqE:
  assumes "rxSem (Seq a b) caps w caps2"
  obtains w1 w2 caps1 where "w = w1 @ w2" "rxSem a caps w1 caps1" "rxSem b caps1 w2 caps2"
  using assms by auto

lemma rxSem_GrpE:
  assumes "rxSem (Grp n a) caps w caps2"
  obtains caps1 where "rxSem a caps w caps1" "caps2 = caps1(n \<mapsto> w)"
  using assms by auto

lemma rxSem_spaces: "rxSem spaces caps w caps' \<longleftrightarrow> caps' = caps \<and> blank w"
  by (simp add: spaces_def blank_def)

lemma rxSem_cls: "rxSem (PlusCls P) caps w caps' \<longleftrightarrow> caps' = caps \<and> classText P w"
  by (simp add: classText_def)

lemma rxSem_back:
  "caps n = Some g \<Longrightarrow> rxSem (Back n) caps w caps' \<longleftrightarrow> caps' = caps \<and> sameCI w g"
  by simp

definition npmHeadRx :: Rx where
  "npmHeadRx = Alt (seqs [Lit ''npm'', spaces, Grp 2 (Alt (Lit ''install'') (Lit ''run''))])
                   (seqs [Lit ''npx'', spaces,
                          PlusCls (\<lambda>c. wordChar c \<or> c = CHR ''@'' \<or> c = CHR ''.'' \<or> c = CHR ''-'')])"

lemma npmHeadRx_sound:
  assumes "rxSem npmHeadRx caps g caps'"
  shows "npmHead g \<and> caps' 1 = caps 1 \<and> caps' 3 = caps 3 \<and> caps' 4 = caps 4"
proof -
  from assms have "rxSem (Seq (Lit ''npm'') (Seq spaces (Grp 2 (Alt (Lit ''install'') (Lit ''run''))))) caps g caps'
      \<or> rxSem (Seq (Lit ''npx'') (Seq spaces
            (PlusCls (\<lambda>c. wordChar c \<or> c = CHR ''@'' \<or> c = CHR ''.'' \<or> c = CHR ''-'')))) caps g caps'"
    by (simp add: npmHeadRx_def)
  then show ?thesis
  proof
    assume "rxSem (Seq (Lit ''npm'') (Seq spaces (Grp 2 (Alt (Lit ''install'') (Lit ''run''))))) caps g caps'"
    then obtain a r c1 where 1: "g = a @ r" "rxSem (Lit ''npm'') caps a c1"
      "rxSem (Seq spaces (Grp 2 (Alt (Lit ''install'') (Lit ''run'')))) c1 r caps'"
      by (rule rxSem_SeqE)
    from 1(3) obtain w b c2 where 2: "r = w @ b" "rxSem spaces c1 w c2"
      "rxSem (Grp 2 (Alt (Lit ''install'') (Lit ''run''))) c2 b caps'"
      by (rule rxSem_SeqE)
    from 2(3) obtain c3 where 3: "rxSem (Alt (Lit ''install'') (Lit ''run'')) c2 b c3"
      "caps' = c3(2 \<mapsto> b)" by (rule rxSem_GrpE)
    from 1(2) have a: "c1 = caps" "sameCI a ''npm''" by simp_all
    from 2(2) have w: "c2 = c1" "blank w" by (simp_all add: rxSem_spaces)
    from 3(1) have b: "c3 = c2" "sameCI b ''install'' \<or> sameCI b ''run''" by auto
    from w(2) b(2) have "blankThen (\<lambda>b. sameCI b ''install'' \<or> sameCI b ''run'') r"
      unfolding blankThen_def 2(1) by blast
    with a(2) have "litThen ''npm'' (blankThen (\<lambda>b. sameCI b ''install'' \<or> sameCI b ''run'')) g"
      unfolding litThen_def 1(1) by blast
    then have "npmHead g" by (simp add: npmHead_def)
    moreover from 3(2) a w b have "caps' 1 = caps 1 \<and> caps' 3 = caps 3 \<and> caps' 4 = caps 4"
      by simp
    ultimately show ?thesis by simp
  next
    assume "rxSem (Seq (Lit ''npx'') (Seq spaces
            (PlusCls (\<lambda>c. wordChar c \<or> c = CHR ''@'' \<or> c = CHR ''.'' \<or> c = CHR ''-'')))) caps g caps'"
    then obtain a r c1 where 1: "g = a @ r" "rxSem (Lit ''npx'') caps a c1"
      "rxSem (Seq spaces (PlusCls (\<lambda>c. wordChar c \<or> c = CHR ''@'' \<or> c = CHR ''.'' \<or> c = CHR ''-''))) c1 r caps'"
      by (rule rxSem_SeqE)
    from 1(3) obtain w b c2 where 2: "r = w @ b" "rxSem spaces c1 w c2"
      "rxSem (PlusCls (\<lambda>c. wordChar c \<or> c = CHR ''@'' \<or> c = CHR ''.'' \<or> c = CHR ''-'')) c2 b caps'"
      by (rule rxSem_SeqE)
    from 1(2) have a: "c1 = caps" "sameCI a ''npx''" by simp_all
    from 2(2) have w: "c2 = c1" "blank w" by (simp_all add: rxSem_spaces)
    from 2(3) have b: "caps' = c2"
      "classText (\<lambda>c. wordChar c \<or> c = CHR ''@'' \<or> c = CHR ''.'' \<or> c = CHR ''-'') b"
      by (simp_all add: classText_def)
    from w(2) b(2) have "blankThen (classText (\<lambda>c. wordChar c \<or> c = CHR ''@'' \<or> c = CHR ''.'' \<or> c = CHR ''-'')) r"
      unfolding blankThen_def 2(1) by blast
    with a(2) have "litThen ''npx''
        (blankThen (classText (\<lambda>c. wordChar c \<or> c = CHR ''@'' \<or> c = CHR ''.'' \<or> c = CHR ''-''))) g"
      unfolding litThen_def 1(1) by blast
    then have "npmHead g" by (simp add: npmHead_def)
    with a w b show ?thesis by simp
  qed
qed

lemma npmHeadRx_complete:
  assumes "npmHead g"
  shows "\<exists>caps'. rxSem npmHeadRx caps g caps'"
proof -
  from assms have "litThen ''npm'' (blankThen (\<lambda>b. sameCI b ''install'' \<or> sameCI b ''run'')) g
      \<or> litThen ''npx''
           (blankThen (classText (\<lambda>c. wordChar c \<or> c = CHR ''@'' \<or> c = CHR ''.'' \<or> c = CHR ''-''))) g"
    by (simp add: npmHead_def)
  then show ?thesis
  proof
    assume "litThen ''npm'' (blankThen (\<lambda>b. sameCI b ''install'' \<or> sameCI b ''run'')) g"
    then obtain a w b where g: "g = a @ w @ b" and a: "sameCI a ''npm''" and w: "blank w"
      and b: "sameCI b ''install'' \<or> sameCI b ''run''"
      unfolding litThen_def blankThen_def by blast
    from a have 1: "rxSem (Lit ''npm'') caps a caps" by simp
    from w have 2: "rxSem spaces caps w caps" by (simp add: rxSem_spaces)
    from b have 3: "rxSem (Grp 2 (Alt (Lit ''install'') (Lit ''run''))) caps b (caps(2 \<mapsto> b))" by auto
    from rxSem_SeqI[OF 1 rxSem_SeqI[OF 2 3]]
    have "rxSem npmHeadRx caps g (caps(2 \<mapsto> b))" unfolding g by (simp add: npmHeadRx_def)
    then show ?thesis by blast
  next
    assume "litThen ''npx''
           (blankThen (classText (\<lambda>c. wordChar c \<or> c = CHR ''@'' \<or> c = CHR ''.'' \<or> c = CHR ''-''))) g"
    then obtain a w b where g: "g = a @ w @ b" and a: "sameCI a ''npx''" and w: "blank w"
      and b: "classText (\<lambda>c. wordChar c \<or> c = CHR ''@'' \<or> c = CHR ''.'' \<or> c = CHR ''-'') b"
      unfolding litThen_def blankThen_def by blast
    from a have 1: "rxSem (Lit ''npx'') caps a caps" by simp
    from w have 2: "rxSem spaces caps w caps" by (simp add: rxSem_spaces)
    from b have 3: "rxSem (PlusCls (\<lambda>c. wordChar c \<or> c = CHR ''@'' \<or> c = CHR ''.'' \<or> c = CHR ''-'')) caps b caps"
      by (simp add: classText_def)
    from rxSem_SeqI[OF 1 rxSem_SeqI[OF 2 3]]
    have "rxSem npmHeadRx caps g caps" unfolding g by (simp add: npmHeadRx_def)
    then show ?thesis by blast
  qed
qed

lemma npmPattern_head:
  "npmPattern =
     Seq (Grp 1 npmHeadRx) (Seq spaces
       (Seq (Grp 3 (PlusCls (\<lambda>c. wordChar c \<or> is_space c \<or> c = CHR ''@'' \<or> c = CHR ''.'' \<or> c = CHR ''-'')))
            (Grp 4 (Seq spaces (Seq (Back 1) (Seq spaces (Back 3)))))))"
  by (simp add: npmPattern_def npmHeadRx_def)

lemma npmPattern_sound:
  assumes "rxSem npmPattern Map.empty w caps"
  shows "\<exists>g1 w1 g3 g4 w2 h w3 a.
           w = g1 @ w1 @ g3 @ g4 \<and> g4 = w2 @ h @ w3 @ a \<and> caps 4 = Some g4
           \<and> npmHead g1 \<and> blank w1
           \<and> classText (\<lambda>c. wordChar c \<or> is_space c \<or> c = CHR ''@'' \<or> c = CHR ''.'' \<or> c = CHR ''-'') g3
           \<and> blank w2 \<and> sameCI h g1 \<and> blank w3 \<and> sameCI a g3"
proof -
  let ?arg = "\<lambda>c. wordChar c \<or> is_space c \<or> c = CHR ''@'' \<or> c = CHR ''.'' \<or> c = CHR ''-''"
  from assms obtain g1 r1 c1 where 1: "w = g1 @ r1" "rxSem (Grp 1 npmHeadRx) Map.empty g1 c1"
    "rxSem (Seq spaces (Seq (Grp 3 (PlusCls ?arg))
            (Grp 4 (Seq spaces (Seq (Back 1) (Seq spaces (Back 3))))))) c1 r1 caps"
    unfolding npmPattern_head by (rule rxSem_SeqE)
  from 1(2) obtain c0 where h: "rxSem npmHeadRx Map.empty g1 c0" "c1 = c0(1 \<mapsto> g1)"
    by (rule rxSem_GrpE)
  from npmHeadRx_sound[OF h(1)] have head: "npmHead g1" and c03: "c0 3 = None" by simp_all
  from 1(3) obtain w1 r2 c2 where 2: "r1 = w1 @ r2" "rxSem spaces c1 w1 c2"
    "rxSem (Seq (Grp 3 (PlusCls ?arg))
            (Grp 4 (Seq spaces (Seq (Back 1) (Seq spaces (Back 3)))))) c2 r2 caps"
    by (rule rxSem_SeqE)
  from 2(2) have w1: "c2 = c1" "blank w1" by (simp_all add: rxSem_spaces)
  from 2(3) obtain g3 g4 c3 where 3: "r2 = g3 @ g4" "rxSem (Grp 3 (PlusCls ?arg)) c2 g3 c3"
    "rxSem (Grp 4 (Seq spaces (Seq (Back 1) (Seq spaces (Back 3))))) c3 g4 caps"
    by (rule rxSem_SeqE)
  from 3(2) obtain c3' where "rxSem (PlusCls ?arg) c2 g3 c3'" "c3 = c3'(3 \<mapsto> g3)"
    by (rule rxSem_GrpE)
  then have g3: "classText ?arg g3" "c3 = c2(3 \<mapsto> g3)" by (simp_all add: classText_def)
  from g3(2) w1(1) h(2) have c31: "c3 1 = Some g1" and c33: "c3 3 = Some g3" by simp_all
  from 3(3) obtain c4 where 4: "rxSem (Seq spaces (Seq (Back 1) (Seq spaces (Back 3)))) c3 g4 c4"
    "caps = c4(4 \<mapsto> g4)" by (rule rxSem_GrpE)
  from 4(1) obtain w2 r5 c5 where 5: "g4 = w2 @ r5" "rxSem spaces c3 w2 c5"
    "rxSem (Seq (Back 1) (Seq spaces (Back 3))) c5 r5 c4" by (rule rxSem_SeqE)
  from 5(2) have w2: "c5 = c3" "blank w2" by (simp_all add: rxSem_spaces)
  from 5(3) obtain hh r6 c6 where 6: "r5 = hh @ r6" "rxSem (Back 1) c5 hh c6"
    "rxSem (Seq spaces (Back 3)) c6 r6 c4" by (rule rxSem_SeqE)
  from 6(2) w2(1) c31 have hh: "c6 = c3" "sameCI hh g1" by simp_all
  from 6(3) obtain w3 a c7 where 7: "r6 = w3 @ a" "rxSem spaces c6 w3 c7"
    "rxSem (Back 3) c7 a c4" by (rule rxSem_SeqE)
  from 7(2) have w3: "c7 = c6" "blank w3" by (simp_all add: rxSem_spaces)
  from 7(3) w3(1) hh(1) c33 have a: "sameCI a g3" by simp
  have "w = g1 @ w1 @ g3 @ g4" by (simp add: 1(1) 2(1) 3(1))
  moreover have "g4 = w2 @ hh @ w3 @ a" by (simp add: 5(1) 6(1) 7(1))
  moreover have "caps 4 = Some g4" by (simp add: 4(2))
  ultimately show ?thesis using head w1(2) g3(1) w2(2) hh(2) w3(2) a by blast
qed

lemma npmPattern_complete:
  assumes "npmHead g1" "blank w1"
    "classText (\<lambda>c. wordChar c \<or> is_space c \<or> c = CHR ''@'' \<or> c = CHR ''.'' \<or> c = CHR ''-'') g3"
    "blank w2" "sameCI h g1" "blank w3" "sameCI a g3"
  shows "\<exists>caps. rxSem npmPattern Map.empty (g1 @ w1 @ g3 @ w2 @ h @ w3 @ a) caps"
proof -
  let ?arg = "\<lambda>c. wordChar c \<or> is_space c \<or> c = CHR ''@'' \<or> c = CHR ''.'' \<or> c = CHR ''-''"
  from npmHeadRx_complete[OF assms(1)] obtain c0 where c0: "rxSem npmHeadRx Map.empty g1 c0" ..
  define c1 where "c1 = c0(1 \<mapsto> g1)"
  define c3 where "c3 = c1(3 \<mapsto> g3)"
  have 1: "rxSem (Grp 1 npmHeadRx) Map.empty g1 c1" using c0 by (auto simp: c1_def)
  have 2: "rxSem spaces c1 w1 c1" using assms(2) by (simp add: rxSem_spaces)
  have 3: "rxSem (Grp 3 (PlusCls ?arg)) c1 g3 c3" using assms(3) by (auto simp: c3_def classText_def)
  have c31: "c3 1 = Some g1" and c33: "c3 3 = Some g3" by (simp_all add: c3_def c1_def)
  have 5: "rxSem spaces c3 w2 c3" using assms(4) by (simp add: rxSem_spaces)
  have 6: "rxSem (Back 1) c3 h c3" using assms(5) c31 by simp
  have 7: "rxSem spaces c3 w3 c3" using assms(6) by (simp add: rxSem_spaces)
  have 8: "rxSem (Back 3) c3 a c3" using assms(7) c33 by simp
  from rxSem_SeqI[OF 5 rxSem_SeqI[OF 6 rxSem_SeqI[OF 7 8]]]
  have "rxSem (Seq spaces (Seq (Back 1) (Seq spaces (Back 3)))) c3 (w2 @ h @ w3 @ a) c3" .
  then have 4: "rxSem (Grp 4 (Seq spaces (Seq (Back 1) (Seq spaces (Back 3))))) c3 (w2 @ h @ w3 @ a)
      (c3(4 \<mapsto> w2 @ h @ w3 @ a))"
    by (simp only: rxSem.simps) blast
  from rxSem_SeqI[OF 1 rxSem_SeqI[OF 2 rxSem_SeqI[OF 3 4]]]
  have "rxSem npmPattern Map.empty (g1 @ w1 @ g3 @ w2 @ h @ w3 @ a) (c3(4 \<mapsto> w2 @ h @ w3 @ a))"
    unfolding npmPattern_head .
  then show ?thesis by blast
qed

lemma sem_lit_seq:
  "rxSem (Seq (Lit l) r) caps w caps' \<longleftrightarrow> litThen l (\<lambda>b. rxSem r caps b caps') w"
  by (auto simp: litThen_def)

lemma sem_spaces_seq:
  "rxSem (Seq spaces r) caps w caps' \<longleftrightarrow> blankThen (\<lambda>b. rxSem r caps b caps') w"
  by (auto simp: blankThen_def blank_def spaces_def)

lemma litThen_conj: "litThen l (\<lambda>b. A \<and> Q b) w \<longleftrightarrow> A \<and> litThen l Q w"
  unfolding litThen_def by blast

lemma blankThen_conj: "blankThen (\<lambda>b. A \<and> Q b) w \<longleftrightarrow> A \<and> blankThen Q w"
  unfolding blankThen_def by blast

lemma blankThen_conj_fun: "blankThen (\<lambda>b. A \<and> Q b) = (\<lambda>w. A \<and> blankThen Q w)"
  by (intro ext) (rule blankThen_conj)

fun wordsRx :: "string list \<Rightarrow> Rx \<Rightarrow> Rx" where
  "wordsRx [] r = r"
| "wordsRx [l] r = Seq (Lit l) r"
| "wordsRx (l # ls) r = Seq (Lit l) (Seq spaces (wordsRx ls r))"

lemma wordsRx_sem:
  "rxSem (wordsRx ls r) caps w caps' \<longleftrightarrow> wordsThen ls (\<lambda>b. rxSem r caps b caps') w"
proof (induction ls r arbitrary: w rule: wordsRx.induct)
  case (1 r)
  show ?case by simp
next
  case (2 l r)
  show ?case by (simp only: wordsRx.simps wordsThen.simps sem_lit_seq)
next
  case (3 l v va r)
  show ?case
    by (simp only: wordsRx.simps wordsThen.simps sem_lit_seq sem_spaces_seq "3.IH")
qed

lemma wordsThen_conj: "ls \<noteq> [] \<Longrightarrow> wordsThen ls (\<lambda>b. A \<and> Q b) w \<longleftrightarrow> A \<and> wordsThen ls Q w"
proof (induction ls Q arbitrary: w rule: wordsThen.induct)
  case (1 Q)
  then show ?case by simp
next
  case (2 l Q)
  show ?case by (simp only: wordsThen.simps litThen_conj)
next
  case (3 l v va Q)
  have "\<And>b. wordsThen (v # va) (\<lambda>b. A \<and> Q b) b \<longleftrightarrow> A \<and> wordsThen (v # va) Q b"
    by (rule "3.IH") simp
  then have e: "wordsThen (v # va) (\<lambda>b. A \<and> Q b) = (\<lambda>b. A \<and> wordsThen (v # va) Q b)"
    by (intro ext)
  show ?case by (simp only: wordsThen.simps e blankThen_conj_fun litThen_conj)
qed

definition shadcnHeadRx :: Rx where
  "shadcnHeadRx =
     wordsRx [''npx'', ''shadcn@latest'', ''add'', ''--yes'', ''--overwrite'', ''--path='']
       (PlusCls (\<lambda>c. wordChar c \<or> c = CHR ''/'' \<or> c = CHR ''.'' \<or> c = CHR ''-''))"

lemma shadcnHeadRx_sem: "rxSem shadcnHeadRx caps w caps' \<longleftrightarrow> caps' = caps \<and> shadcnHead w"
proof -
  have "rxSem shadcnHeadRx caps w caps' \<longleftrightarrow>
      wordsThen [''npx'', ''shadcn@latest'', ''add'', ''--yes'', ''--overwrite'', ''--path='']
        (\<lambda>b. caps' = caps
              \<and> classText (\<lambda>c. wordChar c \<or> c = CHR ''/'' \<or> c = CHR ''.'' \<or> c = CHR ''-'') b) w"
    unfolding shadcnHeadRx_def wordsRx_sem by (simp only: rxSem_cls)
  also have "\<dots> \<longleftrightarrow> caps' = caps \<and> shadcnHead w"
    unfolding shadcnHead_def by (rule wordsThen_conj) simp
  finally show ?thesis .
qed

lemma shadcnPattern_head:
  "shadcnPattern =
     Seq (Grp 1 shadcnHeadRx)
       (Seq (Grp 2 (Seq spaces (PlusCls (\<lambda>c. wordChar c \<or> is_space c \<or> c = CHR ''-''))))
            (Grp 3 (Seq spaces (Back 1))))"
  by (simp add: shadcnPattern_def shadcnHeadRx_def)

lemma shadcnPattern_sound:
  assumes "rxSem shadcnPattern Map.empty w caps"
  shows "\<exists>g1 g2 ws h.
           w = g1 @ g2 @ ws @ h \<and> caps 1 = Some g1 \<and> caps 2 = Some g2
           \<and> shadcnHead g1
           \<and> blankThen (classText (\<lambda>c. wordChar c \<or> is_space c \<or> c = CHR ''-'')) g2
           \<and> blank ws \<and> sameCI h g1"
proof -
  let ?nm = "\<lambda>c. wordChar c \<or> is_space c \<or> c = CHR ''-''"
  from assms obtain g1 r1 c1 where 1: "w = g1 @ r1" "rxSem (Grp 1 shadcnHeadRx) Map.empty g1 c1"
    "rxSem (Seq (Grp 2 (Seq spaces (PlusCls ?nm))) (Grp 3 (Seq spaces (Back 1)))) c1 r1 caps"
    unfolding shadcnPattern_head by (rule rxSem_SeqE)
  from 1(2) obtain c0 where "rxSem shadcnHeadRx Map.empty g1 c0" "c1 = c0(1 \<mapsto> g1)"
    by (rule rxSem_GrpE)
  then have head: "shadcnHead g1" and c1: "c1 = Map.empty(1 \<mapsto> g1)"
    by (simp_all add: shadcnHeadRx_sem)
  from 1(3) obtain g2 g3 c2 where 2: "r1 = g2 @ g3" "rxSem (Grp 2 (Seq spaces (PlusCls ?nm))) c1 g2 c2"
    "rxSem (Grp 3 (Seq spaces (Back 1))) c2 g3 caps" by (rule rxSem_SeqE)
  from 2(2) obtain c2' where 3: "rxSem (Seq spaces (PlusCls ?nm)) c1 g2 c2'" "c2 = c2'(2 \<mapsto> g2)"
    by (rule rxSem_GrpE)
  from 3(1) have "blankThen (\<lambda>b. rxSem (PlusCls ?nm) c1 b c2') g2" by (simp only: sem_spaces_seq)
  then have "blankThen (\<lambda>b. c2' = c1 \<and> classText ?nm b) g2" by (simp only: rxSem_cls)
  then have g2: "c2' = c1" "blankThen (classText ?nm) g2" by (simp_all only: blankThen_conj)
  from 2(3) obtain c3 where 4: "rxSem (Seq spaces (Back 1)) c2 g3 c3" "caps = c3(3 \<mapsto> g3)"
    by (rule rxSem_GrpE)
  from 4(1) obtain ws h c4 where 5: "g3 = ws @ h" "rxSem spaces c2 ws c4" "rxSem (Back 1) c4 h c3"
    by (rule rxSem_SeqE)
  from 5(2) have ws: "c4 = c2" "blank ws" by (simp_all add: rxSem_spaces)
  have c21: "c2 1 = Some g1" by (simp add: 3(2) g2(1) c1)
  from 5(3) ws(1) c21 have h: "c3 = c2" "sameCI h g1" by simp_all
  have "w = g1 @ g2 @ ws @ h" by (simp add: 1(1) 2(1) 5(1))
  moreover have "caps 1 = Some g1" "caps 2 = Some g2" by (simp_all add: 4(2) h(1) 3(2) g2(1) c1)
  ultimately show ?thesis using head g2(2) ws(2) h(2) by blast
qed

lemma shadcnPattern_complete:
  assumes "shadcnHead g1"
    "blankThen (classText (\<lambda>c. wordChar c \<or> is_space c \<or> c = CHR ''-'')) g2"
    "blank ws" "sameCI h g1"
  shows "\<exists>caps. rxSem shadcnPattern Map.empty (g1 @ g2 @ ws @ h) caps"
proof -
  let ?nm = "\<lambda>c. wordChar c \<or> is_space c \<or> c = CHR ''-''"
  define c1 :: "nat \<rightharpoonup> string" where "c1 = Map.empty(1 \<mapsto> g1)"
  define c2 where "c2 = c1(2 \<mapsto> g2)"
  have "rxSem shadcnHeadRx Map.empty g1 Map.empty" using assms(1) by (simp add: shadcnHeadRx_sem)
  then have 1: "rxSem (Grp 1 shadcnHeadRx) Map.empty g1 c1"
    unfolding c1_def by (simp only: rxSem.simps) blast
  from assms(2) have "blankThen (\<lambda>b. c1 = c1 \<and> classText ?nm b) g2" by (simp only: blankThen_conj)
  then have "blankThen (\<lambda>b. rxSem (PlusCls ?nm) c1 b c1) g2" by (simp only: rxSem_cls)
  then have "rxSem (Seq spaces (PlusCls ?nm)) c1 g2 c1" by (simp only: sem_spaces_seq)
  then have 2: "rxSem (Grp 2 (Seq spaces (PlusCls ?nm))) c1 g2 c2"
    unfolding c2_def by (simp only: rxSem.simps) blast
  have c21: "c2 1 = Some g1" by (simp add: c2_def c1_def)
  have 3: "rxSem spaces c2 ws c2" using assms(3) by (simp add: rxSem_spaces)
  have 4: "rxSem (Back 1) c2 h c2" using assms(4) c21 by simp
  from rxSem_SeqI[OF 3 4] have "rxSem (Seq spaces (Back 1)) c2 (ws @ h) c2" .
  then have 5: "rxSem (Grp 3 (Seq spaces (Back 1))) c2 (ws @ h) (c2(3 \<mapsto> ws @ h))"
    by (simp only: rxSem.simps) blast
  from rxSem_SeqI[OF 1 rxSem_SeqI[OF 2 5]]
  have "rxSem shadcnPattern Map.empty (g1 @ g2 @ ws @ h) (c2(3 \<mapsto> ws @ h))"
    unfolding shadcnPattern_head .
  then show ?thesis by blast
qed

lemma dedupeCommand_steps:
  "dedupeCommand cleanedCommand =
     (let halfLength = length cleanedCommand div 2;
          firstHalf = take halfLength cleanedCommand;
          secondHalf = drop halfLength cleanedCommand
      in if prefix (take (min 20 (length firstHalf)) firstHalf) secondHalf then trim firstHalf
         else shadcnStep (npmStep cleanedCommand))"
  by (simp add: dedupeCommand_def)

lemma indexOf0_decomp:
  "indexOf0 s n = Some i \<Longrightarrow> s = take i s @ n @ drop (i + length n) s"
proof (induction s arbitrary: i)
  case Nil
  then show ?case by (auto split: if_splits)
next
  case (Cons c cs)
  show ?case
  proof (cases "prefix n (c # cs)")
    case True
    with Cons.prems have "i = 0" by simp
    with True show ?thesis by (auto simp: prefix_def)
  next
    case False
    with Cons.prems obtain j where j: "indexOf0 cs n = Some j" "i = Suc j" by auto
    from Cons.IH[OF j(1)] j(2) show ?thesis by simp
  qed
qed

lemma indexOf0_prefix: "prefix n s \<Longrightarrow> indexOf0 s n = Some 0"
  by (cases s) auto

lemma indexOf0_first:
  "s = a @ n @ b \<Longrightarrow> \<exists>i. indexOf0 s n = Some i \<and> i \<le> length a"
proof (induction a arbitrary: s)
  case Nil
  then have "prefix n s" by simp
  then show ?case by (simp add: indexOf0_prefix)
next
  case (Cons c a)
  from Cons.IH[of "a @ n @ b"] obtain j where j: "indexOf0 (a @ n @ b) n = Some j" "j \<le> length a"
    by blast
  show ?case
  proof (cases "prefix n s")
    case True
    then show ?thesis by (simp add: indexOf0_prefix)
  next
    case False
    with Cons.prems j show ?thesis by simp
  qed
qed

lemma replaceFirst_occurrence:
  assumes "t = a @ g @ b"
  shows "\<exists>a' b'. t = a' @ g @ b' \<and> replaceFirst t g [] = a' @ b' \<and> length a' \<le> length a"
proof -
  from indexOf0_first[OF assms] obtain i where i: "indexOf0 t g = Some i" "i \<le> length a" by blast
  from indexOf0_decomp[OF i(1)] have d: "t = take i t @ g @ drop (i + length g) t" .
  from indexOf0_bound[OF i(1)] have "i \<le> length t" by simp
  then have "length (take i t) \<le> length a" using i(2) by simp
  moreover have "replaceFirst t g [] = take i t @ drop (i + length g) t"
    by (simp add: replaceFirst_def i(1))
  ultimately show ?thesis using d by blast
qed

lemma npmSearch_sound:
  assumes "rxSearch npmPattern t = Some caps"
  shows "\<exists>g1 g3 g4. npmRepeat t g1 g3 g4 \<and> caps 4 = Some g4"
proof -
  from rxSearch_sound[OF assms] obtain pre w post where
    t: "t = pre @ w @ post" and s: "rxSem npmPattern Map.empty w caps" by blast
  from npmPattern_sound[OF s] obtain g1 w1 g3 g4 w2 h w3 a where
    w: "w = g1 @ w1 @ g3 @ g4" "g4 = w2 @ h @ w3 @ a" "caps 4 = Some g4"
    and p: "npmHead g1" "blank w1"
      "classText (\<lambda>c. wordChar c \<or> is_space c \<or> c = CHR ''@'' \<or> c = CHR ''.'' \<or> c = CHR ''-'') g3"
      "blank w2" "sameCI h g1" "blank w3" "sameCI a g3"
    by blast
  have "t = pre @ g1 @ w1 @ g3 @ g4 @ post" by (simp add: t w(1))
  with w(2) p have "npmRepeat t g1 g3 g4" unfolding npmRepeat_def by blast
  with w(3) show ?thesis by blast
qed

lemma npmSearch_complete:
  assumes "npmRepeat t g1 g3 g4"
  shows "\<exists>caps. rxSearch npmPattern t = Some caps"
proof -
  from assms obtain pre w1 w2 h w3 a post where
    t: "t = pre @ g1 @ w1 @ g3 @ g4 @ post" "g4 = w2 @ h @ w3 @ a"
    and p: "npmHead g1" "blank w1"
      "classText (\<lambda>c. wordChar c \<or> is_space c \<or> c = CHR ''@'' \<or> c = CHR ''.'' \<or> c = CHR ''-'') g3"
      "blank w2" "sameCI h g1" "blank w3" "sameCI a g3"
    unfolding npmRepeat_def by blast
  from npmPattern_complete[OF p] obtain caps where
    "rxSem npmPattern Map.empty (g1 @ w1 @ g3 @ w2 @ h @ w3 @ a) caps" ..
  from rxSearch_complete[OF this, of pre post]
  have "\<exists>caps'. rxSearch npmPattern (pre @ (g1 @ w1 @ g3 @ w2 @ h @ w3 @ a) @ post) = Some caps'" .
  moreover have "pre @ (g1 @ w1 @ g3 @ w2 @ h @ w3 @ a) @ post = t" by (simp add: t)
  ultimately show ?thesis by simp
qed

lemma npmStep_none: "(\<forall>g1 g3 g4. \<not> npmRepeat t g1 g3 g4) \<Longrightarrow> npmStep t = t"
  using npmSearch_sound[of t] by (cases "rxSearch npmPattern t") (auto simp: npmStep_def)

lemma npmStep_some:
  assumes "npmRepeat t g1 g3 g4"
  shows "\<exists>h1 h3 h4 a b. npmRepeat t h1 h3 h4 \<and> t = a @ h4 @ b \<and> npmStep t = a @ b"
proof -
  from npmSearch_complete[OF assms] obtain caps where c: "rxSearch npmPattern t = Some caps" ..
  from npmSearch_sound[OF c] obtain h1 h3 h4 where h: "npmRepeat t h1 h3 h4" "caps 4 = Some h4"
    by blast
  from h(1) obtain x y where "t = x @ h4 @ y" unfolding npmRepeat_def
    by (metis append.assoc)
  from replaceFirst_occurrence[OF this] obtain a b where
    "t = a @ h4 @ b" "replaceFirst t h4 [] = a @ b" by blast
  moreover have "npmStep t = replaceFirst t h4 []" by (simp add: npmStep_def c h(2))
  ultimately show ?thesis using h(1) by metis
qed

lemma shadcnSearch_sound:
  assumes "rxSearch shadcnPattern t = Some caps"
  shows "\<exists>g1 g2. shadcnRepeat t g1 g2 \<and> caps 1 = Some g1 \<and> caps 2 = Some g2"
proof -
  from rxSearch_sound[OF assms] obtain pre w post where
    t: "t = pre @ w @ post" and s: "rxSem shadcnPattern Map.empty w caps" by blast
  from shadcnPattern_sound[OF s] obtain g1 g2 ws h where
    w: "w = g1 @ g2 @ ws @ h" "caps 1 = Some g1" "caps 2 = Some g2"
    and p: "shadcnHead g1"
      "blankThen (classText (\<lambda>c. wordChar c \<or> is_space c \<or> c = CHR ''-'')) g2"
      "blank ws" "sameCI h g1"
    by blast
  have "t = pre @ g1 @ g2 @ ws @ h @ post" by (simp add: t w(1))
  with p have "shadcnRepeat t g1 g2" unfolding shadcnRepeat_def by blast
  with w(2,3) show ?thesis by blast
qed

lemma shadcnSearch_complete:
  assumes "shadcnRepeat t g1 g2"
  shows "\<exists>caps. rxSearch shadcnPattern t = Some caps"
proof -
  from assms obtain pre ws h post where
    t: "t = pre @ g1 @ g2 @ ws @ h @ post"
    and p: "shadcnHead g1"
      "blankThen (classText (\<lambda>c. wordChar c \<or> is_space c \<or> c = CHR ''-'')) g2"
      "blank ws" "sameCI h g1"
    unfolding shadcnRepeat_def by blast
  from shadcnPattern_complete[OF p] obtain caps where
    "rxSem shadcnPattern Map.empty (g1 @ g2 @ ws @ h) caps" ..
  from rxSearch_complete[OF this, of pre post]
  have "\<exists>caps'. rxSearch shadcnPattern (pre @ (g1 @ g2 @ ws @ h) @ post) = Some caps'" .
  moreover have "pre @ (g1 @ g2 @ ws @ h) @ post = t" by (simp add: t)
  ultimately show ?thesis by simp
qed

lemma shadcnStep_none: "(\<forall>g1 g2. \<not> shadcnRepeat t g1 g2) \<Longrightarrow> shadcnStep t = t"
  using shadcnSearch_sound[of t] by (cases "rxSearch shadcnPattern t") (auto simp: shadcnStep_def)

lemma shadcnStep_some:
  assumes "shadcnRepeat t g1 g2"
  shows "\<exists>h1 h2. shadcnRepeat t h1 h2 \<and> shadcnStep t = h1 @ h2"
proof -
  from shadcnSearch_complete[OF assms] obtain caps where c: "rxSearch shadcnPattern t = Some caps" ..
  from shadcnSearch_sound[OF c] obtain h1 h2 where
    h: "shadcnRepeat t h1 h2" "caps 1 = Some h1" "caps 2 = Some h2" by blast
  have "shadcnStep t = h1 @ h2" using h(2,3) by (simp add: shadcnStep_def c)
  with h(1) show ?thesis by blast
qed

fun joinSpaces :: "string list \<Rightarrow> string" where
  \<comment> \<open>the command line of a program and its arguments\<close>
  "joinSpaces [] = []"
| "joinSpaces [s] = s"
| "joinSpaces (s # t # ss) = s @ '' '' @ joinSpaces (t # ss)"

lemma joinSpaces_Cons: "joinSpaces ((x # p) # ps) = x # joinSpaces (p # ps)"
  by (cases ps) simp_all

lemma joinSpaces_splitOn: "joinSpaces (splitOn CHR '' '' s) = s"
proof (induction s)
  case Nil
  show ?case by simp
next
  case (Cons x xs)
  obtain p ps where sp: "splitOn CHR '' '' xs = p # ps"
    using splitOn_nonempty[of "CHR '' ''" xs] by (cases "splitOn CHR '' '' xs") auto
  with Cons show ?case by (cases "x = CHR '' ''") (simp_all add: joinSpaces_Cons)
qed

lemma executeCommand_runs:
  assumes "\<And>cmd args. joinSpaces (cmd # args) = cleanCommand c \<Longrightarrow> execa' dir cmd args = execa dir cmd args"
  shows "executeCommand execa' dir c = executeCommand execa dir c"
proof -
  define parts where "parts = splitOn CHR '' '' (cleanCommand c)"
  have "parts \<noteq> []" unfolding parts_def by (rule splitOn_nonempty)
  then have "hd parts # tl parts = parts" by simp
  then have "joinSpaces (hd parts # tl parts) = cleanCommand c"
    unfolding parts_def by (simp only: joinSpaces_splitOn)
  from assms[OF this] show ?thesis
    by (simp add: executeCommand_def Let_def parts_def)
qed

lemma cleanCommand_cases:
  "cleanCommand c =
     (let t = collapseNewlines (trim c) in
      if length t \<le> 20 then t
      else if prefix (take (min 20 (length t div 2)) t) (drop (length t div 2) t)
           then trim (take (length t div 2) t)
           else shadcnStep (npmStep t))"
proof -
  have "take (min 20 (length (take (n div 2) t))) (take (n div 2) t) = take (min 20 (n div 2)) t"
    if "n = length t" for t :: string and n
    using that by (simp add: min_def)
  then show ?thesis
    by (simp add: cleanCommand_def dedupeCommand_steps Let_def)
qed

lemma npm_none: "rxSearch npmPattern t = None \<Longrightarrow> \<not> npmRepeat t g1 g3 g4"
  using npmSearch_complete[of t g1 g3 g4] by auto

lemma shadcn_none: "rxSearch shadcnPattern t = None \<Longrightarrow> \<not> shadcnRepeat t g1 g2"
  using shadcnSearch_complete[of t g1 g2] by auto

lemma commandResultOf_run:
  assumes "execa (projectDir s) (hd (splitOn CHR '' '' (cleanCommand (qa_content (hd (queue s))))))
             (tl (splitOn CHR '' '' (cleanCommand (qa_content (hd (queue s)))))) = outcome"
  shows "commandResultOf s outcome =
     (let r = executeCommand execa (projectDir s) (qa_content (hd (queue s)))
      in \<lparr>cr_command = co_command r, cr_success = co_success r, cr_stdout = co_stdout r,
          cr_stderr = co_stderr r, cr_actionId = qa_id (hd (queue s))\<rparr>)"
  using assms by (simp add: commandResultOf_def executeCommand_def Let_def)

text \<open>
  C10: before it is run, the content of a COMMAND is normalized, and the entry appended to
  the command history holds the normalized string, not the content of the action.
  \<open>executeCommand\<close> returns the cleaned command whatever the process does; the process it
  starts is the cleaned command split at its spaces, in the project directory, and the
  result depends on the runner through that call only; the queue pushes this result.
  White space around the content does not matter, the cleaned command holds no line feed,
  a run of white space with a line feed in it between two other characters becomes one
  space, and a cleaned text of at most 20 characters is left as it is. A longer text whose
  second half starts like the text itself is cut down to its first half, in particular a
  text that is the same text twice; otherwise the npm step and then the shadcn step are
  applied. The npm step changes a text exactly when it holds \<open>npm install\<close>, \<open>npm run\<close>
  or \<open>npx\<close> with a tool, arguments, and right after them the same head and arguments
  again: it removes such a repeated part where it first occurs. The shadcn step changes a
  text exactly when it holds a shadcn command with component names and then the command
  again: it keeps the command and the names.
\<close>

theorem command_normalized_and_recorded:
  "co_command (executeCommand execa dir c) = cleanCommand c
   \<and> ((\<forall>cmd args. joinSpaces (cmd # args) = cleanCommand c
          \<longrightarrow> execa' dir cmd args = execa dir cmd args)
        \<longrightarrow> executeCommand execa' dir c = executeCommand execa dir c)
   \<and> (let parts = splitOn CHR '' '' (cleanCommand c) in
        joinSpaces (hd parts # tl parts) = cleanCommand c
        \<and> (\<forall>part \<in> set parts. CHR '' '' \<notin> set part)
        \<and> (\<forall>out err. execa dir (hd parts) (tl parts) = Exited out err
              \<longrightarrow> executeCommand execa dir c
                  = \<lparr>co_success = True, co_command = cleanCommand c,
                     co_stdout = out, co_stderr = err\<rparr>)
        \<and> (\<forall>out err msg. execa dir (hd parts) (tl parts) = Failed out err msg
              \<longrightarrow> executeCommand execa dir c
                  = \<lparr>co_success = False, co_command = cleanCommand c,
                     co_stdout = out, co_stderr = (if err \<noteq> [] then err else msg)\<rparr>))
   \<and> (execa (projectDir s) (hd (splitOn CHR '' '' (cleanCommand (qa_content (hd (queue s))))))
          (tl (splitOn CHR '' '' (cleanCommand (qa_content (hd (queue s)))))) = outcome
        \<longrightarrow> commandResultOf s outcome =
            (let r = executeCommand execa (projectDir s) (qa_content (hd (queue s)))
             in \<lparr>cr_command = co_command r, cr_success = co_success r, cr_stdout = co_stdout r,
                 cr_stderr = co_stderr r, cr_actionId = qa_id (hd (queue s))\<rparr>))
   \<and> cr_command (commandResultOf s outcome) = cleanCommand (qa_content (hd (queue s)))
   \<and> commandHistory (commandDone outcome s) = commandHistory s @ [commandResultOf s outcome]
   \<and> (loop s = Some InCommand \<longrightarrow> resumeLoop (Ran outcome) s = commandDone outcome s)
   \<and> (list_all is_space w1 \<and> list_all is_space w2
        \<longrightarrow> cleanCommand (w1 @ c @ w2) = cleanCommand c)
   \<and> nl \<notin> set (cleanCommand c)
   \<and> (\<not> is_space x \<and> list_all is_space w \<and> nl \<in> set w \<and> \<not> is_space y
        \<longrightarrow> collapseNewlines (a @ x # w @ y # b)
            = collapseNewlines (a @ [x]) @ CHR '' '' # collapseNewlines (y # b))
   \<and> (length (collapseNewlines (trim c)) \<le> 20 \<longrightarrow> cleanCommand c = collapseNewlines (trim c))
   \<and> (collapseNewlines (trim c) = X @ X \<and> 20 < length (X @ X) \<longrightarrow> cleanCommand c = trim X)
   \<and> (let t = collapseNewlines (trim c) in
        20 < length t
        \<longrightarrow> cleanCommand c =
            (if prefix (take (min 20 (length t div 2)) t) (drop (length t div 2) t)
             then trim (take (length t div 2) t)
             else shadcnStep (npmStep t)))
   \<and> ((\<forall>g1 g3 g4. \<not> npmRepeat t g1 g3 g4) \<longrightarrow> npmStep t = t)
   \<and> (npmRepeat t g1 g3 g4
        \<longrightarrow> (\<exists>h1 h3 h4 a b. npmRepeat t h1 h3 h4 \<and> t = a @ h4 @ b \<and> npmStep t = a @ b))
   \<and> ((\<forall>g1 g2. \<not> shadcnRepeat t g1 g2) \<longrightarrow> shadcnStep t = t)
   \<and> (shadcnRepeat t g1 g2 \<longrightarrow> (\<exists>h1 h2. shadcnRepeat t h1 h2 \<and> shadcnStep t = h1 @ h2))"
proof -
  have c1: "co_command (executeCommand execa dir c) = cleanCommand c"
    by (rule executeCommand_command)
  have c2: "(\<forall>cmd args. joinSpaces (cmd # args) = cleanCommand c
          \<longrightarrow> execa' dir cmd args = execa dir cmd args)
        \<longrightarrow> executeCommand execa' dir c = executeCommand execa dir c"
    using executeCommand_runs[of c execa' dir execa] by blast
  have c2': "let parts = splitOn CHR '' '' (cleanCommand c) in
        joinSpaces (hd parts # tl parts) = cleanCommand c
        \<and> (\<forall>part \<in> set parts. CHR '' '' \<notin> set part)
        \<and> (\<forall>out err. execa dir (hd parts) (tl parts) = Exited out err
              \<longrightarrow> executeCommand execa dir c
                  = \<lparr>co_success = True, co_command = cleanCommand c,
                     co_stdout = out, co_stderr = err\<rparr>)
        \<and> (\<forall>out err msg. execa dir (hd parts) (tl parts) = Failed out err msg
              \<longrightarrow> executeCommand execa dir c
                  = \<lparr>co_success = False, co_command = cleanCommand c,
                     co_stdout = out, co_stderr = (if err \<noteq> [] then err else msg)\<rparr>)"
  proof -
    define parts where "parts = splitOn CHR '' '' (cleanCommand c)"
    have "parts \<noteq> []" unfolding parts_def by (rule splitOn_nonempty)
    then have "hd parts # tl parts = parts" by simp
    then have j: "joinSpaces (hd parts # tl parts) = cleanCommand c"
      unfolding parts_def by (simp only: joinSpaces_splitOn)
    have n: "\<forall>part \<in> set parts. CHR '' '' \<notin> set part"
      unfolding parts_def using splitOn_no_sep by blast
    have e: "\<forall>out err. execa dir (hd parts) (tl parts) = Exited out err
              \<longrightarrow> executeCommand execa dir c
                  = \<lparr>co_success = True, co_command = cleanCommand c,
                     co_stdout = out, co_stderr = err\<rparr>"
      by (simp add: executeCommand_def Let_def parts_def)
    have f: "\<forall>out err msg. execa dir (hd parts) (tl parts) = Failed out err msg
              \<longrightarrow> executeCommand execa dir c
                  = \<lparr>co_success = False, co_command = cleanCommand c,
                     co_stdout = out, co_stderr = (if err \<noteq> [] then err else msg)\<rparr>"
      by (simp add: executeCommand_def Let_def parts_def)
    from j n e f show ?thesis unfolding Let_def parts_def by (intro conjI)
  qed
  have c3: "execa (projectDir s) (hd (splitOn CHR '' '' (cleanCommand (qa_content (hd (queue s))))))
          (tl (splitOn CHR '' '' (cleanCommand (qa_content (hd (queue s)))))) = outcome
        \<longrightarrow> commandResultOf s outcome =
            (let r = executeCommand execa (projectDir s) (qa_content (hd (queue s)))
             in \<lparr>cr_command = co_command r, cr_success = co_success r, cr_stdout = co_stdout r,
                 cr_stderr = co_stderr r, cr_actionId = qa_id (hd (queue s))\<rparr>)"
    using commandResultOf_run[of execa s outcome] by blast
  have c4: "cr_command (commandResultOf s outcome) = cleanCommand (qa_content (hd (queue s)))"
    by (simp add: commandResultOf_def Let_def executeCommand_command)
  have c5: "commandHistory (commandDone outcome s) = commandHistory s @ [commandResultOf s outcome]"
    by (simp add: commandDone_def)
  have c6: "loop s = Some InCommand \<longrightarrow> resumeLoop (Ran outcome) s = commandDone outcome s"
    by (simp add: resumeLoop_def)
  have c7: "list_all is_space w1 \<and> list_all is_space w2
        \<longrightarrow> cleanCommand (w1 @ c @ w2) = cleanCommand c"
    by (simp add: cleanCommand_surrounding)
  have c8: "nl \<notin> set (cleanCommand c)" by (rule cleanCommand_no_nl)
  have c9: "\<not> is_space x \<and> list_all is_space w \<and> nl \<in> set w \<and> \<not> is_space y
        \<longrightarrow> collapseNewlines (a @ x # w @ y # b)
            = collapseNewlines (a @ [x]) @ CHR '' '' # collapseNewlines (y # b)"
    using collapse_line_break[of x w y a b] by blast
  have c10: "length (collapseNewlines (trim c)) \<le> 20 \<longrightarrow> cleanCommand c = collapseNewlines (trim c)"
    by (simp add: cleanCommand_def Let_def)
  have c11: "collapseNewlines (trim c) = X @ X \<and> 20 < length (X @ X) \<longrightarrow> cleanCommand c = trim X"
  proof
    assume h: "collapseNewlines (trim c) = X @ X \<and> 20 < length (X @ X)"
    then have "dedupeCommand (X @ X) = trim X" by (intro dedupe_exact_repeat) simp
    with h show "cleanCommand c = trim X" by (simp add: cleanCommand_def Let_def)
  qed
  have c12: "let t = collapseNewlines (trim c) in
        20 < length t
        \<longrightarrow> cleanCommand c =
            (if prefix (take (min 20 (length t div 2)) t) (drop (length t div 2) t)
             then trim (take (length t div 2) t)
             else shadcnStep (npmStep t))"
    by (simp add: cleanCommand_cases Let_def)
  have c13: "(\<forall>g1 g3 g4. \<not> npmRepeat t g1 g3 g4) \<longrightarrow> npmStep t = t"
    using npmStep_none[of t] by blast
  have c14: "npmRepeat t g1 g3 g4
        \<longrightarrow> (\<exists>h1 h3 h4 a b. npmRepeat t h1 h3 h4 \<and> t = a @ h4 @ b \<and> npmStep t = a @ b)"
    using npmStep_some[of t g1 g3 g4] by blast
  have c15: "(\<forall>g1 g2. \<not> shadcnRepeat t g1 g2) \<longrightarrow> shadcnStep t = t"
    using shadcnStep_none[of t] by blast
  have c16: "shadcnRepeat t g1 g2 \<longrightarrow> (\<exists>h1 h2. shadcnRepeat t h1 h2 \<and> shadcnStep t = h1 @ h2)"
    using shadcnStep_some[of t g1 g2] by blast
  show ?thesis by (intro conjI c1 c2 c2' c3 c4 c5 c6 c7 c8 c9 c10 c11 c12 c13 c14 c15 c16)
qed

definition installTwice :: string where
  \<comment> \<open>a command as the model repeats it, on two lines\<close>
  "installTwice = ''npm install axios'' @ [nl] @ ''npm install axios''"

definition runningCommand :: "string \<Rightarrow> ActionQueue" where
  "runningCommand content = addActionQ COMMAND None content ''action-1'' (newActionQueue ''/p1'')"

lemma runningCommand_eval:
  "runningCommand content = (newActionQueue ''/p1'')
     \<lparr>queue := [\<lparr>qa_type = COMMAND, qa_path = None, qa_content = content,
                  qa_processed = False, qa_retryCount = 0, qa_id = ''action-1''\<rparr>],
      isProcessing := True, pendingCommands := {''action-1''}, loop := Some InCommand\<rparr>"
  by (simp add: runningCommand_def addActionQ_def startProcessing_def newActionQueue_def Let_def
      iterate.simps hasPendingCommands_def QUEUE_MAX_RETRIES_def processActionStart_def)

lemma installTwice_clean: "cleanCommand installTwice = ''npm install axios''"
  unfolding installTwice_def by code_simp

lemma build_clean:
  "collapseNewlines (trim ('' npm run'' @ [nl, nl] @ ''  build '')) = ''npm run build''"
  by code_simp

lemma axios_clean:
  "collapseNewlines (trim (''npm install axios'' @ ''npm install axios''))
     = ''npm install axios'' @ ''npm install axios''"
  "trim ''npm install axios'' = ''npm install axios''"
  by code_simp+

lemma npm_run_clean:
  "collapseNewlines ''npm'' = ''npm''" "collapseNewlines ''run'' = ''run''"
  "is_space CHR '' ''" "\<not> is_space CHR ''m''" "\<not> is_space CHR ''r''"
  by code_simp+

definition shadcnTwice :: string where
  "shadcnTwice = ''npx shadcn@latest add --yes --overwrite --path=src/ui button card''
                 @ '' npx shadcn@latest add --yes --overwrite --path=src/ui''"

definition npmRunner :: "string \<Rightarrow> string \<Rightarrow> string list \<Rightarrow> ExecaOutcome" where
  \<comment> \<open>a runner that knows one command line\<close>
  "npmRunner dir cmd args =
     (if dir = ''/p1'' \<and> cmd = ''npm'' \<and> args = [''install'', ''axios'']
      then Exited ''added 1 package'' [] else Failed [] [] ''not found'')"

lemma installTwice_steps:
  "collapseNewlines (trim installTwice) = ''npm install axios npm install axios''"
  "rxSearch npmPattern ''npm install axios npm install axios'' \<noteq> None"
  "npmStep ''npm install axios npm install axios'' = ''npm install axios''"
  "rxSearch shadcnPattern ''npm install axios'' = None"
  unfolding installTwice_def by code_simp+

lemma shadcnTwice_steps:
  "collapseNewlines (trim shadcnTwice) = shadcnTwice"
  "20 < length shadcnTwice"
  "\<not> prefix (take (min 20 (length shadcnTwice div 2)) shadcnTwice)
            (drop (length shadcnTwice div 2) shadcnTwice)"
  "rxSearch npmPattern shadcnTwice = None"
  "rxSearch shadcnPattern shadcnTwice \<noteq> None"
  "shadcnStep shadcnTwice = ''npx shadcn@latest add --yes --overwrite --path=src/ui button card''"
  unfolding shadcnTwice_def by code_simp+

lemma parts_eval:
  "splitOn CHR '' '' ''npm install axios'' = [''npm'', ''install'', ''axios'']"
  by simp

text \<open>
  The command \<open>npm install axios\<close> repeated on two lines: the runner is called with
  \<open>npm\<close> and the arguments \<open>install\<close>, \<open>axios\<close>, and the history records
  \<open>npm install axios\<close>. The same text written twice without a separator, a short
  command on three lines, and a shadcn command given twice are cleaned as stated.
\<close>

theorem command_normalized_and_recorded_witness:
  "executeCommand npmRunner ''/p1'' installTwice
     = \<lparr>co_success = True, co_command = ''npm install axios'',
        co_stdout = ''added 1 package'', co_stderr = []\<rparr>
   \<and> map cr_command (commandHistory (resumeLoop (Ran (Exited ''ok'' [])) (runningCommand installTwice)))
     = [''npm install axios'']
   \<and> cleanCommand ('' '' @ ('' npm run'' @ [nl, nl] @ ''  build '') @ [nl]) = ''npm run build''
   \<and> collapseNewlines (''np'' @ CHR ''m'' # [nl, nl] @ CHR ''r'' # ''un'') = ''npm run''
   \<and> cleanCommand (''npm install axios'' @ ''npm install axios'') = ''npm install axios''
   \<and> cleanCommand shadcnTwice
     = ''npx shadcn@latest add --yes --overwrite --path=src/ui button card''
   \<and> npmStep shadcnTwice = shadcnTwice
   \<and> shadcnStep ''npm install axios'' = ''npm install axios''
   \<and> (\<exists>h1 h3 h4 a b. npmRepeat ''npm install axios npm install axios'' h1 h3 h4
         \<and> ''npm install axios npm install axios'' = a @ h4 @ b
         \<and> npmStep ''npm install axios npm install axios'' = a @ b)
   \<and> (\<exists>h1 h2. shadcnRepeat shadcnTwice h1 h2 \<and> shadcnStep shadcnTwice = h1 @ h2)"
proof -
  from installTwice_steps(2) obtain ncaps where
    "rxSearch npmPattern ''npm install axios npm install axios'' = Some ncaps" by blast
  from npmSearch_sound[OF this] obtain n1 n3 n4 where
    nr: "npmRepeat ''npm install axios npm install axios'' n1 n3 n4" by blast
  from shadcnTwice_steps(5) obtain scaps where "rxSearch shadcnPattern shadcnTwice = Some scaps"
    by blast
  from shadcnSearch_sound[OF this] obtain s1 s2 where sr: "shadcnRepeat shadcnTwice s1 s2" by blast
  note T1 = command_normalized_and_recorded[where execa = npmRunner and execa' = npmRunner
      and dir = "''/p1''" and c = installTwice and s = "runningCommand installTwice"
      and outcome = "Exited ''ok'' []" and ?w1.0 = "'' ''" and ?w2.0 = "[nl]"
      and x = "CHR ''m''" and w = "[nl, nl]" and y = "CHR ''r''" and a = "''np''" and b = "''un''"
      and X = "[]" and t = "''npm install axios npm install axios''"
      and ?g1.0 = n1 and ?g3.0 = n3 and ?g4.0 = n4 and ?g2.0 = s2]
  note T2 = command_normalized_and_recorded[where execa = npmRunner and execa' = npmRunner
      and dir = "''/p1''" and c = "'' npm run'' @ [nl, nl] @ ''  build ''"
      and s = "runningCommand installTwice"
      and outcome = "Exited ''ok'' []" and ?w1.0 = "'' ''" and ?w2.0 = "[nl]"
      and x = "CHR ''m''" and w = "[nl, nl]" and y = "CHR ''r''" and a = "''np''" and b = "''un''"
      and X = "[]" and t = "''npm install axios''"
      and ?g1.0 = s1 and ?g3.0 = n3 and ?g4.0 = n4 and ?g2.0 = s2]
  note T3 = command_normalized_and_recorded[where execa = npmRunner and execa' = npmRunner
      and dir = "''/p1''" and c = "''npm install axios'' @ ''npm install axios''"
      and s = "runningCommand installTwice"
      and outcome = "Exited ''ok'' []" and ?w1.0 = "[]" and ?w2.0 = "[]"
      and x = "CHR ''m''" and w = "[nl, nl]" and y = "CHR ''r''" and a = "''np''" and b = "''un''"
      and X = "''npm install axios''" and t = shadcnTwice
      and ?g1.0 = s1 and ?g3.0 = n3 and ?g4.0 = n4 and ?g2.0 = s2]
  note T4 = command_normalized_and_recorded[where execa = npmRunner and execa' = npmRunner
      and dir = "''/p1''" and c = shadcnTwice
      and s = "runningCommand installTwice"
      and outcome = "Exited ''ok'' []" and ?w1.0 = "[]" and ?w2.0 = "[]"
      and x = "CHR ''m''" and w = "[nl, nl]" and y = "CHR ''r''" and a = "''np''" and b = "''un''"
      and X = "[]" and t = shadcnTwice
      and ?g1.0 = s1 and ?g3.0 = n3 and ?g4.0 = n4 and ?g2.0 = s2]
  have l: "loop (runningCommand installTwice) = Some InCommand"
    and h: "commandHistory (runningCommand installTwice) = []"
    and q: "qa_content (hd (queue (runningCommand installTwice))) = installTwice"
    by (simp_all add: runningCommand_eval newActionQueue_def)
  have 1: "executeCommand npmRunner ''/p1'' installTwice
     = \<lparr>co_success = True, co_command = ''npm install axios'',
        co_stdout = ''added 1 package'', co_stderr = []\<rparr>"
    using T1 installTwice_clean by (simp add: Let_def npmRunner_def)
  have 2: "map cr_command
        (commandHistory (resumeLoop (Ran (Exited ''ok'' [])) (runningCommand installTwice)))
      = [''npm install axios'']"
    using T1 l h q installTwice_clean by simp
  have 3: "cleanCommand ('' '' @ ('' npm run'' @ [nl, nl] @ ''  build '') @ [nl]) = ''npm run build''"
    using T2 build_clean nl_space npm_run_clean(3) by simp
  have 4: "collapseNewlines (''np'' @ CHR ''m'' # [nl, nl] @ CHR ''r'' # ''un'') = ''npm run''"
    using T2 nl_space npm_run_clean by simp
  have 5: "cleanCommand (''npm install axios'' @ ''npm install axios'') = ''npm install axios''"
    using T3 axios_clean by simp
  have nn: "\<forall>g1 g3 g4. \<not> npmRepeat shadcnTwice g1 g3 g4"
    using npm_none[OF shadcnTwice_steps(4)] by blast
  have 7: "npmStep shadcnTwice = shadcnTwice" using T3 nn by blast
  have 6: "cleanCommand shadcnTwice
     = ''npx shadcn@latest add --yes --overwrite --path=src/ui button card''"
    using T4 shadcnTwice_steps(1,2,3,6) 7 by (simp add: Let_def)
  have sn: "\<forall>g1 g2. \<not> shadcnRepeat ''npm install axios'' g1 g2"
    using shadcn_none[OF installTwice_steps(4)] by blast
  have 8: "shadcnStep ''npm install axios'' = ''npm install axios''" using T2 sn by blast
  have 9: "\<exists>h1 h3 h4 a b. npmRepeat ''npm install axios npm install axios'' h1 h3 h4
         \<and> ''npm install axios npm install axios'' = a @ h4 @ b
         \<and> npmStep ''npm install axios npm install axios'' = a @ b"
    using T1 nr by blast
  have 10: "\<exists>h1 h2. shadcnRepeat shadcnTwice h1 h2 \<and> shadcnStep shadcnTwice = h1 @ h2"
    using T4 sr by blast
  show ?thesis by (intro conjI 1 2 3 4 5 6 7 8 9 10)
qed


subsection \<open>One command at a time\<close>

definition pendingAtMostOne :: "ActionQueue \<Rightarrow> bool" where
  "pendingAtMostOne s = (pendingCommands s = {} \<or> (\<exists>i. pendingCommands s = {i}))"

definition pendingGrows :: "ActionQueue \<Rightarrow> ActionQueue \<Rightarrow> bool" where
  "pendingGrows s s' =
     ((pendingCommands s \<noteq> {} \<longrightarrow> pendingCommands s' \<subseteq> pendingCommands s)
      \<and> (pendingCommands s = {} \<longrightarrow> pendingCommands s' = {} \<or> (\<exists>i. pendingCommands s' = {i})))"

lemma pendingGrows_refl: "pendingGrows s s"
  by (simp add: pendingGrows_def)

lemma pendingGrows_same: "pendingCommands s' = pendingCommands s \<Longrightarrow> pendingGrows s s'"
  by (simp add: pendingGrows_def)

lemma pendingGrows_cong:
  "pendingCommands s0 = pendingCommands s \<Longrightarrow> pendingGrows s0 s' \<Longrightarrow> pendingGrows s s'"
  by (simp add: pendingGrows_def)

lemma checkIfComplete_pending [simp]: "pendingCommands (checkIfComplete s) = pendingCommands s"
  by (simp add: checkIfComplete_def)

lemma processActionStart_grows: "pendingGrows s (processActionStart s)"
  by (auto simp: processActionStart_def pendingGrows_def hasPendingCommands_def Let_def
           split: ActionType.splits)

lemma iterate_grows: "pendingGrows s (iterate s)"
proof (induction s rule: iterate.induct)
  case (1 s)
  show ?case
  proof (cases "queue s \<noteq> [] \<and> \<not> paused s")
    case True
    note t = True
    show ?thesis
    proof (cases "hasPendingCommands s")
      case True
      with t show ?thesis by (subst iterate.simps) (simp add: pendingGrows_def Let_def)
    next
      case np: False
      show ?thesis
      proof (cases "qa_retryCount (hd (queue s)) \<ge> QUEUE_MAX_RETRIES")
        case True
        from "1.IH"(1)[OF t refl np True]
        have "pendingGrows (s\<lparr>queue := tl (queue s)\<rparr>) (iterate (s\<lparr>queue := tl (queue s)\<rparr>))" .
        then have "pendingGrows s (iterate (s\<lparr>queue := tl (queue s)\<rparr>))"
          by (rule pendingGrows_cong[rotated]) simp
        with t np True show ?thesis by (subst iterate.simps) (simp add: Let_def)
      next
        case nr: False
        show ?thesis
        proof (cases "qa_processed (hd (queue s))")
          case False
          with t np nr show ?thesis
            by (subst iterate.simps) (simp add: Let_def processActionStart_grows)
        next
          case True
          from np have e: "pendingCommands s = {}" by (simp add: hasPendingCommands_def)
          then have c: "qa_type (hd (queue s)) \<noteq> COMMAND \<or> qa_id (hd (queue s)) \<notin> pendingCommands s"
            by simp
          from "1.IH"(2)[OF t refl np nr _ c] True
          have "pendingGrows (s\<lparr>queue := tl (queue s)\<rparr>) (iterate (s\<lparr>queue := tl (queue s)\<rparr>))" by simp
          then have "pendingGrows s (iterate (s\<lparr>queue := tl (queue s)\<rparr>))"
            by (rule pendingGrows_cong[rotated]) simp
          with t np nr True c show ?thesis by (subst iterate.simps) (simp add: Let_def)
        qed
      qed
    qed
  next
    case False
    define s1 where "s1 = checkIfComplete (s\<lparr>isProcessing := False, loop := None\<rparr>)"
    have q: "queue s1 = queue s \<and> paused s1 = paused s \<and> pendingCommands s1 = pendingCommands s"
      by (simp add: s1_def checkIfComplete_def)
    have "iterate s =
        (let s1 = checkIfComplete (s\<lparr>isProcessing := False, loop := None\<rparr>) in
         if hasPendingCommands s1 then s1\<lparr>timers := Suc (timers s1)\<rparr>
         else if queue s1 \<noteq> [] \<and> \<not> paused s1 then iterate (s1\<lparr>isProcessing := True\<rparr>)
         else s1)"
      by (subst iterate.simps, subst if_not_P[OF False], rule refl)
    then have "iterate s = (if hasPendingCommands s1 then s1\<lparr>timers := Suc (timers s1)\<rparr>
         else if queue s1 \<noteq> [] \<and> \<not> paused s1 then iterate (s1\<lparr>isProcessing := True\<rparr>)
         else s1)"
      by (simp only: Let_def s1_def[symmetric])
    moreover from q False have "\<not> (queue s1 \<noteq> [] \<and> \<not> paused s1)" by simp
    ultimately have "iterate s = (if hasPendingCommands s1 then s1\<lparr>timers := Suc (timers s1)\<rparr> else s1)"
      by (simp only: if_False)
    with q show ?thesis by (simp add: pendingGrows_def)
  qed
qed

lemma pendingGrows_subset: "pendingCommands s' \<subseteq> pendingCommands s \<Longrightarrow> pendingGrows s s'"
  by (auto simp: pendingGrows_def)

lemma startProcessing_grows: "pendingGrows s (startProcessing s)"
proof -
  have "pendingGrows (s\<lparr>isProcessing := True\<rparr>) (iterate (s\<lparr>isProcessing := True\<rparr>))"
    by (rule iterate_grows)
  then have "pendingGrows s (iterate (s\<lparr>isProcessing := True\<rparr>))"
    by (rule pendingGrows_cong[rotated]) simp
  then show ?thesis
    by (simp add: startProcessing_def pendingGrows_refl pendingGrows_same)
qed

lemma addActionQ_grows: "pendingGrows s (addActionQ ty p content ident s)"
proof -
  define s1 where "s1 = s\<lparr>queue := queue s @ [\<lparr>qa_type = ty, qa_path = p, qa_content = content,
      qa_processed = False, qa_retryCount = 0, qa_id = ident\<rparr>]\<rparr>"
  have p: "pendingCommands s1 = pendingCommands s" by (simp add: s1_def)
  have "pendingGrows s s1" using p by (rule pendingGrows_same)
  moreover have "pendingGrows s (startProcessing s1)"
    using p startProcessing_grows[of s1] by (rule pendingGrows_cong)
  ultimately show ?thesis
    by (simp add: addActionQ_def Let_def s1_def[symmetric])
qed

lemma resumeQ_grows: "pendingGrows s (resumeQ s)"
proof -
  have "pendingGrows s (startProcessing (s\<lparr>paused := False\<rparr>))"
    using _ startProcessing_grows[of "s\<lparr>paused := False\<rparr>"] by (rule pendingGrows_cong) simp
  then show ?thesis
    by (simp add: resumeQ_def Let_def pendingGrows_refl pendingGrows_same)
qed

lemma restartTimer_grows: "pendingGrows s (restartTimer s)"
proof -
  have "pendingGrows s (startProcessing (s\<lparr>timers := timers s - 1\<rparr>))"
    using _ startProcessing_grows[of "s\<lparr>timers := timers s - 1\<rparr>"] by (rule pendingGrows_cong) simp
  then show ?thesis
    by (simp add: restartTimer_def Let_def pendingGrows_refl pendingGrows_same)
qed

lemma handleResult_pending [simp]: "pendingCommands (handleResult ok s) = pendingCommands s"
  by (simp add: handleResult_def markResult_def shiftProcessed_def Let_def split: list.splits)

lemma resumeLoop_grows: "pendingGrows s (resumeLoop outcome s)"
proof (cases "loop s")
  case None
  then show ?thesis by (simp add: resumeLoop_def pendingGrows_refl)
next
  case (Some pt)
  have it: "pendingGrows s (iterate (handleResult ok s))" for ok
    using _ iterate_grows[of "handleResult ok s"] by (rule pendingGrows_cong) simp
  show ?thesis
  proof (cases pt)
    case Sleeping
    with Some show ?thesis by (simp add: resumeLoop_def iterate_grows)
  next
    case InCommand
    with Some show ?thesis
      by (cases outcome)
         (auto simp: resumeLoop_def commandDone_def commandThrew_def intro!: pendingGrows_subset)
  next
    case Settling
    with Some show ?thesis
      by (auto simp: resumeLoop_def settled_def intro!: pendingGrows_subset)
  next
    case InApply
    with Some show ?thesis
      by (cases outcome) (auto simp: resumeLoop_def intro!: pendingGrows_subset)
  next
    case InText
    with Some show ?thesis
      by (cases outcome) (auto simp: resumeLoop_def intro!: pendingGrows_subset)
  next
    case (Returned ok)
    with Some it show ?thesis by (simp add: resumeLoop_def)
  qed
qed

lemma step_grows: "step s s' \<Longrightarrow> pendingGrows s s'"
proof (induction rule: step.induct)
  case (step_wait s)
  show ?case by (rule pendingGrows_same) (simp add: waitUntilComplete_def)
next
  case (step_timeout s)
  show ?case by (rule pendingGrows_same) (simp add: waitTimeout_def)
next
  case (step_pause s)
  show ?case by (rule pendingGrows_same) (simp add: pauseQ_def)
qed (rule addActionQ_grows resumeQ_grows startProcessing_grows restartTimer_grows resumeLoop_grows)+

lemma reachable_pendingAtMostOne: "reachable s \<Longrightarrow> pendingAtMostOne s"
proof (induction rule: reachable.induct)
  case (reach_init dir)
  show ?case by (simp add: pendingAtMostOne_def newActionQueue_def)
next
  case (reach_step s s')
  from reach_step(2) have "pendingGrows s s'" by (rule step_grows)
  with reach_step(3) show ?case
    unfolding pendingAtMostOne_def pendingGrows_def by (metis subset_singletonD)
qed

text \<open>
  C2: in every reachable state of a queue at most one COMMAND is pending. While a command
  is pending no step of the queue adds another one: the loop defers the head action and
  sleeps, after the sleep it tests its condition again, and \<open>processAction\<close> refuses a
  COMMAND.
\<close>

theorem at_most_one_pending_command:
  "(reachable s \<longrightarrow> finite (pendingCommands s) \<and> card (pendingCommands s) \<le> 1)
   \<and> (step s s' \<and> pendingCommands s \<noteq> {} \<longrightarrow> pendingCommands s' \<subseteq> pendingCommands s)
   \<and> (queue s \<noteq> [] \<and> \<not> paused s \<and> pendingCommands s \<noteq> {}
        \<longrightarrow> iterate s = s\<lparr>loop := Some Sleeping\<rparr>)
   \<and> (qa_type (hd (queue s)) = COMMAND \<and> pendingCommands s \<noteq> {}
        \<longrightarrow> processActionStart s = s\<lparr>loop := Some (Returned False)\<rparr>)
   \<and> (loop s = Some Sleeping \<longrightarrow> resumeLoop outcome s = iterate s)"
proof -
  have c1: "reachable s \<longrightarrow> finite (pendingCommands s) \<and> card (pendingCommands s) \<le> 1"
  proof
    assume "reachable s"
    then have "pendingAtMostOne s" by (rule reachable_pendingAtMostOne)
    then have "pendingCommands s = {} \<or> (\<exists>i. pendingCommands s = {i})"
      by (simp only: pendingAtMostOne_def)
    then show "finite (pendingCommands s) \<and> card (pendingCommands s) \<le> 1"
    proof
      assume "pendingCommands s = {}"
      then show ?thesis by simp
    next
      assume "\<exists>i. pendingCommands s = {i}"
      then obtain i where "pendingCommands s = {i}" ..
      then show ?thesis by simp
    qed
  qed
  have c2: "step s s' \<and> pendingCommands s \<noteq> {} \<longrightarrow> pendingCommands s' \<subseteq> pendingCommands s"
  proof
    assume a: "step s s' \<and> pendingCommands s \<noteq> {}"
    then have "pendingGrows s s'" by (simp add: step_grows)
    with a show "pendingCommands s' \<subseteq> pendingCommands s" by (simp add: pendingGrows_def)
  qed
  have c3: "queue s \<noteq> [] \<and> \<not> paused s \<and> pendingCommands s \<noteq> {}
        \<longrightarrow> iterate s = s\<lparr>loop := Some Sleeping\<rparr>"
    by (subst iterate.simps) (simp add: hasPendingCommands_def Let_def)
  have c4: "qa_type (hd (queue s)) = COMMAND \<and> pendingCommands s \<noteq> {}
        \<longrightarrow> processActionStart s = s\<lparr>loop := Some (Returned False)\<rparr>"
    by (simp add: processActionStart_def hasPendingCommands_def Let_def)
  have c5: "loop s = Some Sleeping \<longrightarrow> resumeLoop outcome s = iterate s"
    by (simp add: resumeLoop_def)
  show ?thesis by (intro conjI c1 c2 c3 c4 c5)
qed

definition twoCommands :: ActionQueue where
  "twoCommands =
     addActionQ COMMAND None ''npm run build'' ''action-2''
       (addActionQ COMMAND None ''npm install'' ''action-1'' (newActionQueue ''/p1''))"

lemma twoCommands_reachable: "reachable twoCommands"
  unfolding twoCommands_def by (intro reach_step[OF _ step_add] reach_init)

lemma twoCommands_eval:
  "twoCommands = (newActionQueue ''/p1'')
     \<lparr>queue := [\<lparr>qa_type = COMMAND, qa_path = None, qa_content = ''npm install'',
                  qa_processed = False, qa_retryCount = 0, qa_id = ''action-1''\<rparr>,
                 \<lparr>qa_type = COMMAND, qa_path = None, qa_content = ''npm run build'',
                  qa_processed = False, qa_retryCount = 0, qa_id = ''action-2''\<rparr>],
      isProcessing := True, pendingCommands := {''action-1''}, loop := Some InCommand\<rparr>"
  by (simp add: twoCommands_def addActionQ_def startProcessing_def newActionQueue_def Let_def
      iterate.simps hasPendingCommands_def QUEUE_MAX_RETRIES_def processActionStart_def)

text \<open>
  Two commands are added one after the other: the first is running, the second waits.
\<close>

theorem at_most_one_pending_command_witness:
  "reachable twoCommands
   \<and> pendingCommands twoCommands = {''action-1''}
   \<and> card (pendingCommands twoCommands) \<le> 1
   \<and> pendingCommands (addActionQ COMMAND None ''npm test'' ''action-3'' twoCommands)
        \<subseteq> pendingCommands twoCommands
   \<and> iterate twoCommands = twoCommands\<lparr>loop := Some Sleeping\<rparr>
   \<and> processActionStart twoCommands = twoCommands\<lparr>loop := Some (Returned False)\<rparr>"
  using at_most_one_pending_command[of twoCommands
          "addActionQ COMMAND None ''npm test'' ''action-3'' twoCommands" "Fulfilled"]
        twoCommands_reachable
        step_add[of twoCommands COMMAND None "''npm test''" "''action-3''"]
  by (simp add: twoCommands_eval newActionQueue_def)


subsection \<open>Retries and draining\<close>

definition retriable :: "QueuedAction \<Rightarrow> bool" where
  "retriable a = (qa_retryCount a < QUEUE_MAX_RETRIES \<and> \<not> qa_processed a)"

definition wellFormed :: "ActionQueue \<Rightarrow> bool" where
  "wellFormed s =
     (list_all retriable (queue s)
      \<and> (isProcessing s = (loop s \<noteq> None))
      \<and> (case loop s of
            None \<Rightarrow> pendingCommands s = {}
          | Some pt \<Rightarrow>
              queue s \<noteq> [] \<and> pt \<noteq> Sleeping
              \<and> pendingCommands s =
                  (if pt = InCommand \<or> pt = Settling then {qa_id (hd (queue s))} else {})))"

definition attemptsLeft :: "QueuedAction list \<Rightarrow> nat" where
  "attemptsLeft q = sum_list (map (\<lambda>a. QUEUE_MAX_RETRIES - qa_retryCount a) q)"

definition drained :: "ActionQueue \<Rightarrow> bool" where
  "drained s =
     (queue s = [] \<and> pendingCommands s = {} \<and> \<not> isProcessing s \<and> loop s = None
      \<and> waiters s = 0)"

fun rank :: "LoopPoint option \<Rightarrow> nat" where
  "rank None = 0"
| "rank (Some Sleeping) = 4"
| "rank (Some InCommand) = 3"
| "rank (Some Settling) = 2"
| "rank (Some InApply) = 2"
| "rank (Some InText) = 2"
| "rank (Some (Returned ok)) = 1"

definition resumesLeft :: "ActionQueue \<Rightarrow> nat" where
  "resumesLeft s = 3 * attemptsLeft (queue s) + rank (loop s)"

lemma iterate_retriable:
  assumes q: "list_all retriable (queue s)" and p: "pendingCommands s = {}"
  shows "iterate s =
     (if queue s \<noteq> [] \<and> \<not> paused s then processActionStart s
      else checkIfComplete (s\<lparr>isProcessing := False, loop := None\<rparr>))"
proof (cases "queue s \<noteq> [] \<and> \<not> paused s")
  case True
  then obtain a rest where ar: "queue s = a # rest" by (cases "queue s") auto
  with q have "retriable a" by simp
  then have "\<not> qa_retryCount (hd (queue s)) \<ge> QUEUE_MAX_RETRIES" "\<not> qa_processed (hd (queue s))"
    by (simp_all add: ar retriable_def)
  with True p show ?thesis
    by (subst iterate.simps) (simp add: Let_def hasPendingCommands_def)
next
  case False
  define s1 where "s1 = checkIfComplete (s\<lparr>isProcessing := False, loop := None\<rparr>)"
  have qq: "queue s1 = queue s \<and> paused s1 = paused s \<and> pendingCommands s1 = pendingCommands s"
    by (simp add: s1_def checkIfComplete_def)
  have "iterate s =
        (let s1 = checkIfComplete (s\<lparr>isProcessing := False, loop := None\<rparr>) in
         if hasPendingCommands s1 then s1\<lparr>timers := Suc (timers s1)\<rparr>
         else if queue s1 \<noteq> [] \<and> \<not> paused s1 then iterate (s1\<lparr>isProcessing := True\<rparr>)
         else s1)"
    by (subst iterate.simps, subst if_not_P[OF False], rule refl)
  then have "iterate s = (if hasPendingCommands s1 then s1\<lparr>timers := Suc (timers s1)\<rparr>
         else if queue s1 \<noteq> [] \<and> \<not> paused s1 then iterate (s1\<lparr>isProcessing := True\<rparr>)
         else s1)"
    by (simp only: Let_def s1_def[symmetric])
  moreover from qq False have "\<not> (queue s1 \<noteq> [] \<and> \<not> paused s1)" by simp
  moreover from qq p have "\<not> hasPendingCommands s1" by (simp add: hasPendingCommands_def)
  ultimately have "iterate s = s1" by (simp only: if_False)
  with False show ?thesis by (simp only: s1_def if_False)
qed

lemma checkIfComplete_fields [simp]:
  "queue (checkIfComplete s) = queue s" "isProcessing (checkIfComplete s) = isProcessing s"
  "paused (checkIfComplete s) = paused s" "loop (checkIfComplete s) = loop s"
  "resolved (checkIfComplete s) + waiters (checkIfComplete s) = resolved s + waiters s"
  by (simp_all add: checkIfComplete_def)

lemma wellFormed_checkIfComplete: "wellFormed s \<Longrightarrow> wellFormed (checkIfComplete s)"
  by (simp add: wellFormed_def split: option.splits)

lemma processActionStart_fields [simp]:
  "queue (processActionStart s) = queue s" "isProcessing (processActionStart s) = isProcessing s"
  "paused (processActionStart s) = paused s" "waiters (processActionStart s) = waiters s"
  "resolved (processActionStart s) = resolved s"
  by (simp_all add: processActionStart_def Let_def split: ActionType.splits)

lemma processActionStart_loop:
  "pendingCommands s = {} \<Longrightarrow>
   \<exists>pt. loop (processActionStart s) = Some pt \<and> pt \<noteq> Sleeping
        \<and> pendingCommands (processActionStart s) =
            (if pt = InCommand \<or> pt = Settling then {qa_id (hd (queue s))} else {})"
  by (cases "qa_type (hd (queue s))")
     (auto simp: processActionStart_def Let_def hasPendingCommands_def)

text \<open>The loop run from its condition, with no command pending and the flag set.\<close>

lemma wellFormed_iterate:
  assumes q: "list_all retriable (queue s)" and p: "pendingCommands s = {}"
    and i: "isProcessing s"
  shows "wellFormed (iterate s)"
proof (cases "queue s \<noteq> [] \<and> \<not> paused s")
  case True
  from processActionStart_loop[OF p] obtain pt where
    pt: "loop (processActionStart s) = Some pt" "pt \<noteq> Sleeping"
      "pendingCommands (processActionStart s) =
         (if pt = InCommand \<or> pt = Settling then {qa_id (hd (queue s))} else {})"
    by blast
  from True q p have "iterate s = processActionStart s" by (simp add: iterate_retriable)
  with pt q i True show ?thesis by (simp add: wellFormed_def split: option.splits)
next
  case False
  have "iterate s = checkIfComplete (s\<lparr>isProcessing := False, loop := None\<rparr>)"
    by (simp only: iterate_retriable[OF q p] if_not_P[OF False])
  moreover have "wellFormed (s\<lparr>isProcessing := False, loop := None\<rparr>)"
    using q p by (simp add: wellFormed_def split: option.splits)
  ultimately show ?thesis by (simp add: wellFormed_checkIfComplete)
qed

lemma wellFormed_startProcessing:
  assumes w: "wellFormed s"
  shows "wellFormed (startProcessing s)"
proof (cases "isProcessing s \<or> paused s")
  case True
  with w show ?thesis by (simp add: startProcessing_def)
next
  case False
  show ?thesis
  proof (cases "queue s = []")
    case True
    with False w show ?thesis by (simp add: startProcessing_def wellFormed_checkIfComplete)
  next
    case ne: False
    from False w have l: "loop s = None" by (simp add: wellFormed_def)
    with w have "list_all retriable (queue s)" "pendingCommands s = {}"
      by (simp_all add: wellFormed_def)
    then have "wellFormed (iterate (s\<lparr>isProcessing := True\<rparr>))"
      by (intro wellFormed_iterate) simp_all
    with False ne show ?thesis by (simp add: startProcessing_def)
  qed
qed

lemma wellFormed_queue_append:
  assumes w: "wellFormed s" and r: "retriable a"
  shows "wellFormed (s\<lparr>queue := queue s @ [a]\<rparr>)"
  using w r by (cases "queue s") (auto simp: wellFormed_def split: option.splits)

lemma wellFormed_addActionQ: "wellFormed s \<Longrightarrow> wellFormed (addActionQ ty p content ident s)"
proof -
  assume w: "wellFormed s"
  define a where "a = \<lparr>qa_type = ty, qa_path = p, qa_content = content,
      qa_processed = False, qa_retryCount = 0, qa_id = ident\<rparr>"
  have "retriable a" by (simp add: a_def retriable_def QUEUE_MAX_RETRIES_def)
  with w have w1: "wellFormed (s\<lparr>queue := queue s @ [a]\<rparr>)" by (rule wellFormed_queue_append)
  then have "wellFormed (startProcessing (s\<lparr>queue := queue s @ [a]\<rparr>))"
    by (rule wellFormed_startProcessing)
  with w1 show ?thesis by (simp add: addActionQ_def Let_def a_def[symmetric])
qed

lemma wellFormed_paused: "wellFormed s \<Longrightarrow> wellFormed (s\<lparr>paused := b\<rparr>)"
  by (simp add: wellFormed_def split: option.splits)

lemma wellFormed_timers: "wellFormed s \<Longrightarrow> wellFormed (s\<lparr>timers := n\<rparr>)"
  by (simp add: wellFormed_def split: option.splits)

lemma wellFormed_resumeQ: "wellFormed s \<Longrightarrow> wellFormed (resumeQ s)"
  by (simp add: resumeQ_def Let_def wellFormed_paused wellFormed_startProcessing)

lemma wellFormed_restartTimer: "wellFormed s \<Longrightarrow> wellFormed (restartTimer s)"
  by (simp add: restartTimer_def Let_def wellFormed_timers wellFormed_startProcessing)

lemma checkIfComplete_processing: "isProcessing s \<Longrightarrow> checkIfComplete s = s"
  by (simp add: checkIfComplete_def)

lemma handleResult_eq:
  assumes q: "queue s = a # rest" and p: "pendingCommands s = {}"
  shows "handleResult ok s =
     s\<lparr>queue := (if ok \<or> QUEUE_MAX_RETRIES \<le> qa_retryCount a + 1 then rest
                  else rest @ [a\<lparr>qa_retryCount := qa_retryCount a + 1\<rparr>])\<rparr>"
  using q p by (simp add: handleResult_def markResult_def shiftProcessed_def Let_def)

lemma attemptsLeft_Cons [simp]:
  "attemptsLeft (a # q) = (QUEUE_MAX_RETRIES - qa_retryCount a) + attemptsLeft q"
  by (simp add: attemptsLeft_def)

lemma attemptsLeft_append [simp]: "attemptsLeft (q @ r) = attemptsLeft q + attemptsLeft r"
  by (simp add: attemptsLeft_def)

lemma attemptsLeft_Nil [simp]: "attemptsLeft [] = 0"
  by (simp add: attemptsLeft_def)

lemma rank_le: "pt \<noteq> Sleeping \<Longrightarrow> rank (Some pt) \<le> 3"
  by (cases pt) simp_all

lemma rank_pos: "0 < rank (Some pt)"
  by (cases pt) simp_all

definition handled :: "bool \<Rightarrow> QueuedAction \<Rightarrow> QueuedAction list \<Rightarrow> QueuedAction list" where
  "handled ok a rest =
     (if ok \<or> QUEUE_MAX_RETRIES \<le> qa_retryCount a + 1 then rest
      else rest @ [a\<lparr>qa_retryCount := qa_retryCount a + 1\<rparr>])"

lemma handled_retriable:
  "retriable a \<Longrightarrow> list_all retriable rest \<Longrightarrow> list_all retriable (handled ok a rest)"
  by (simp add: handled_def retriable_def)

lemma handled_attemptsLeft:
  "retriable a \<Longrightarrow> Suc (attemptsLeft (handled ok a rest)) \<le> attemptsLeft (a # rest)"
  by (auto simp: handled_def retriable_def)

text \<open>One resumption of a well-formed loop.\<close>

lemma resume_returned:
  fixes outcome :: Outcome
  assumes w: "wellFormed s" and l: "loop s = Some (Returned ok)"
  defines "s' \<equiv> resumeLoop outcome s"
  shows "wellFormed s' \<and> paused s' = paused s
         \<and> resolved s' + waiters s' = resolved s + waiters s
         \<and> (\<not> paused s \<longrightarrow> (if loop s' = None then drained s' else resumesLeft s' < resumesLeft s))"
proof -
  from w l obtain a rest where q: "queue s = a # rest"
    by (cases "queue s") (auto simp: wellFormed_def)
  from w l have p: "pendingCommands s = {}" and i: "isProcessing s"
    and r: "list_all retriable (queue s)"
    by (simp_all add: wellFormed_def)
  from r q have ra: "retriable a" and rr: "list_all retriable rest" by simp_all
  define s1 where "s1 = s\<lparr>queue := handled ok a rest\<rparr>"
  have h: "handleResult ok s = s1"
    unfolding s1_def handled_def by (rule handleResult_eq[OF q p])
  have s': "s' = iterate s1" using l h by (simp add: s'_def resumeLoop_def)
  have r1: "list_all retriable (queue s1)" using ra rr by (simp add: s1_def handled_retriable)
  have p1: "pendingCommands s1 = {}" using p by (simp add: s1_def)
  have i1: "isProcessing s1" using i by (simp add: s1_def)
  have wf: "wellFormed s'" unfolding s' using r1 p1 i1 by (rule wellFormed_iterate)
  have a1: "Suc (attemptsLeft (queue s1)) \<le> attemptsLeft (queue s)"
    using handled_attemptsLeft[OF ra, of ok rest] by (simp add: s1_def q)
  show ?thesis
  proof (cases "queue s1 \<noteq> [] \<and> \<not> paused s1")
    case True
    then have e: "s' = processActionStart s1" using r1 p1 by (simp add: s' iterate_retriable)
    from processActionStart_loop[OF p1] obtain pt where
      pt: "loop (processActionStart s1) = Some pt" "pt \<noteq> Sleeping" by blast
    from pt(2) have "rank (Some pt) \<le> 3" by (rule rank_le)
    with a1 pt(1) have "resumesLeft s' < resumesLeft s"
      by (simp add: resumesLeft_def e l)
    moreover have "loop s' \<noteq> None" using pt(1) by (simp add: e)
    moreover have "paused s' = paused s" "resolved s' + waiters s' = resolved s + waiters s"
      by (simp_all add: e s1_def)
    ultimately show ?thesis using wf by auto
  next
    case False
    have e: "s' = checkIfComplete (s1\<lparr>isProcessing := False, loop := None\<rparr>)"
      by (simp only: s' iterate_retriable[OF r1 p1] if_not_P[OF False])
    have "paused s' = paused s" by (simp add: e s1_def)
    moreover have "resolved s' + waiters s' = resolved s + waiters s"
      unfolding e by (simp add: s1_def)
    moreover have "loop s' = None" by (simp add: e)
    moreover have "\<not> paused s \<longrightarrow> drained s'"
    proof
      assume "\<not> paused s"
      with False have "queue s1 = []" by (simp add: s1_def)
      with p1 show "drained s'"
        by (simp add: e drained_def checkIfComplete_def hasPendingCommands_def)
    qed
    ultimately show ?thesis using wf by auto
  qed
qed

lemma resume_awaited:
  fixes outcome :: Outcome
  assumes w: "wellFormed s" and l: "loop s = Some pt" and n: "\<forall>ok. pt \<noteq> Returned ok"
  defines "s' \<equiv> resumeLoop outcome s"
  shows "wellFormed s' \<and> paused s' = paused s
         \<and> resolved s' + waiters s' = resolved s + waiters s
         \<and> loop s' \<noteq> None \<and> resumesLeft s' < resumesLeft s"
proof -
  from w l have i: "isProcessing s" by (simp add: wellFormed_def)
  have c: "checkIfComplete (s\<lparr>pendingCommands := P\<rparr>) = s\<lparr>pendingCommands := P\<rparr>" for P
    using i by (simp add: checkIfComplete_processing)
  have c': "checkIfComplete s = s" using i by (rule checkIfComplete_processing)
  from w l n show ?thesis
    by (cases pt; cases outcome)
       (simp_all add: s'_def resumeLoop_def commandDone_def commandThrew_def settled_def c c'
          wellFormed_def resumesLeft_def)
qed

lemma resume_step:
  fixes outcome :: Outcome
  assumes w: "wellFormed s" and l: "loop s \<noteq> None"
  defines "s' \<equiv> resumeLoop outcome s"
  shows "wellFormed s' \<and> paused s' = paused s
         \<and> resolved s' + waiters s' = resolved s + waiters s
         \<and> (\<not> paused s \<longrightarrow> (if loop s' = None then drained s' else resumesLeft s' < resumesLeft s))"
proof -
  from l obtain pt where pt: "loop s = Some pt" by blast
  show ?thesis
  proof (cases "\<exists>ok. pt = Returned ok")
    case True
    then obtain ok where "pt = Returned ok" ..
    with pt have "loop s = Some (Returned ok)" by simp
    from resume_returned[OF w this, of outcome] show ?thesis unfolding s'_def .
  next
    case False
    then have "\<forall>ok. pt \<noteq> Returned ok" by simp
    from resume_awaited[OF w pt this, of outcome] show ?thesis by (auto simp: s'_def)
  qed
qed

lemma runLoop_ended: "loop s = None \<Longrightarrow> runLoop outcomes s = s"
  by (cases outcomes) simp_all

lemma runLoop_drains:
  "wellFormed s \<Longrightarrow> \<not> paused s \<Longrightarrow> loop s \<noteq> None \<Longrightarrow> resumesLeft s \<le> length outcomes \<Longrightarrow>
   drained (runLoop outcomes s) \<and> resolved (runLoop outcomes s) = resolved s + waiters s"
proof (induction outcomes arbitrary: s)
  case Nil
  from Nil(3) obtain pt where "loop s = Some pt" by blast
  with rank_pos[of pt] Nil(4) show ?case by (simp add: resumesLeft_def)
next
  case (Cons outcome outcomes)
  from Cons.prems(3) obtain pt where pt: "loop s = Some pt" by blast
  define s' where "s' = resumeLoop outcome s"
  have r: "runLoop (outcome # outcomes) s = runLoop outcomes s'" by (simp add: pt s'_def)
  from resume_step[OF Cons.prems(1,3), of outcome] Cons.prems(2)
  have st: "wellFormed s'" "\<not> paused s'" "resolved s' + waiters s' = resolved s + waiters s"
    "if loop s' = None then drained s' else resumesLeft s' < resumesLeft s"
    by (simp_all add: s'_def)
  show ?case
  proof (cases "loop s' = None")
    case True
    with st(4) have d: "drained s'" by simp
    with st(3) have "resolved s' = resolved s + waiters s" by (simp add: drained_def)
    with d True show ?thesis by (simp only: r runLoop_ended)
  next
    case False
    with st(4) Cons.prems(4) have "resumesLeft s' \<le> length outcomes" by simp
    from Cons.IH[OF st(1,2) False this]
    have "drained (runLoop outcomes s')"
      "resolved (runLoop outcomes s') = resolved s' + waiters s'" by simp_all
    with st(3) show ?thesis by (simp only: r)
  qed
qed

lemma wellFormed_step: "step s s' \<Longrightarrow> wellFormed s \<Longrightarrow> wellFormed s'"
proof (induction rule: step.induct)
  case (step_wait s)
  then show ?case by (simp add: waitUntilComplete_def wellFormed_def split: option.splits)
next
  case (step_timeout s)
  then show ?case by (simp add: waitTimeout_def wellFormed_def split: option.splits)
next
  case (step_pause s)
  then show ?case by (simp add: pauseQ_def wellFormed_paused)
next
  case (step_loop s outcome)
  from resume_step[OF step_loop(2,1)] show ?case by simp
qed (simp_all add: wellFormed_addActionQ wellFormed_resumeQ wellFormed_startProcessing
       wellFormed_restartTimer)

lemma reachable_wellFormed: "reachable s \<Longrightarrow> wellFormed s"
proof (induction rule: reachable.induct)
  case (reach_init dir)
  show ?case by (simp add: wellFormed_def newActionQueue_def)
next
  case (reach_step s s')
  from reach_step(2,3) show ?case by (rule wellFormed_step)
qed

lemma resumesLeft_le: "wellFormed s \<Longrightarrow> resumesLeft s \<le> 3 * attemptsLeft (queue s) + 3"
  by (cases "loop s") (auto simp: resumesLeft_def wellFormed_def dest: rank_le)

definition failingText :: ActionQueue where
  "failingText = addActionQ TEXT None ''hi'' ''action-1'' (newActionQueue ''/p1'')"

definition textAction :: "nat \<Rightarrow> QueuedAction" where
  "textAction n = \<lparr>qa_type = TEXT, qa_path = None, qa_content = ''hi'', qa_processed = False,
                    qa_retryCount = n, qa_id = ''action-1''\<rparr>"

definition textAttempt :: "nat \<Rightarrow> LoopPoint \<Rightarrow> ActionQueue" where
  "textAttempt n pt = (newActionQueue ''/p1'')
     \<lparr>queue := [textAction n], isProcessing := True, loop := Some pt\<rparr>"

lemma failingText_eval: "failingText = textAttempt 0 InText"
  by (simp add: failingText_def textAttempt_def textAction_def addActionQ_def startProcessing_def
      newActionQueue_def Let_def iterate.simps hasPendingCommands_def QUEUE_MAX_RETRIES_def
      processActionStart_def)

lemma textAttempt_rejected: "resumeLoop Rejected (textAttempt n InText) = textAttempt n (Returned False)"
  by (simp add: resumeLoop_def textAttempt_def)

lemma textAttempt_retry:
  "n < 2 \<Longrightarrow> resumeLoop outcome (textAttempt n (Returned False)) = textAttempt (Suc n) InText"
  by (simp add: resumeLoop_def textAttempt_def textAction_def handleResult_def markResult_def
      newActionQueue_def Let_def iterate.simps hasPendingCommands_def QUEUE_MAX_RETRIES_def
      processActionStart_def)

lemma textAttempt_dropped:
  "resumeLoop outcome (textAttempt (Suc (Suc 0)) (Returned False)) = newActionQueue ''/p1''"
  by (simp add: resumeLoop_def textAttempt_def textAction_def handleResult_def markResult_def
      shiftProcessed_def checkIfComplete_def
      newActionQueue_def Let_def iterate.simps hasPendingCommands_def QUEUE_MAX_RETRIES_def)

lemma textAttempt_fields:
  "loop (textAttempt n pt) = Some pt" "queue (textAttempt n pt) = [textAction n]"
  "qa_retryCount (textAction n) = n"
  by (simp_all add: textAttempt_def textAction_def)

lemma newActionQueue_fields:
  "loop (newActionQueue dir) = None" "queue (newActionQueue dir) = []"
  by (simp_all add: newActionQueue_def)

text \<open>
  C3, as stated: an action is moved to the tail of the queue at each failure up to
  \<open>MAX_RETRIES\<close>, and is dropped when it has failed \<open>MAX_RETRIES + 1\<close> times. In the
  source \<open>MAX_RETRIES\<close> counts the attempts: a TEXT action whose logging is rejected each
  time is attempted three times, and at the third failure it is marked processed and
  removed; there is no fourth attempt.
\<close>

theorem third_failure_drops_counterexample:
  "QUEUE_MAX_RETRIES = 3
   \<and> map (\<lambda>k. loop (runLoop (take k [Rejected, Fulfilled, Rejected, Fulfilled, Rejected, Fulfilled])
                       failingText)) [0, 1, 2, 3, 4, 5, 6]
     = [Some InText, Some (Returned False), Some InText, Some (Returned False),
        Some InText, Some (Returned False), None]
   \<and> map qa_retryCount
       (queue (runLoop [Rejected, Fulfilled, Rejected, Fulfilled, Rejected] failingText)) = [2]
   \<and> queue (runLoop [Rejected, Fulfilled, Rejected, Fulfilled, Rejected, Fulfilled] failingText) = []"
  by (simp add: failingText_eval textAttempt_rejected textAttempt_retry textAttempt_dropped
      textAttempt_fields newActionQueue_fields QUEUE_MAX_RETRIES_def)

text \<open>
  C3, amended: a thrown error makes \<open>processAction\<close> return false, and the loop handles
  that result when it resumes. A failure increments \<open>retryCount\<close>; while the new count is
  below \<open>MAX_RETRIES\<close> the action moves to the tail of the queue, and at the failure that
  makes the count reach \<open>MAX_RETRIES\<close> the action is marked processed and dropped. Every
  action in the queue of a reachable state has \<open>retryCount < MAX_RETRIES\<close> and is not
  processed. A running loop that is not paused drains the queue whatever the outcomes of
  its awaits are: after three resumptions for each attempt left and three more, the queue
  is empty, the loop has ended and every waiting \<open>waitUntilComplete\<close> is resolved.
\<close>

theorem retry_then_drop:
  "(loop s = Some InApply \<or> loop s = Some InText
      \<longrightarrow> resumeLoop Rejected s = s\<lparr>loop := Some (Returned False)\<rparr>)
   \<and> (loop s = Some (Returned ok) \<longrightarrow> resumeLoop outcome s = iterate (handleResult ok s))
   \<and> (queue s = a # rest \<and> qa_retryCount a + 1 < QUEUE_MAX_RETRIES
        \<longrightarrow> handleResult False s = s\<lparr>queue := rest @ [a\<lparr>qa_retryCount := qa_retryCount a + 1\<rparr>]\<rparr>)
   \<and> (queue s = a # rest \<and> QUEUE_MAX_RETRIES \<le> qa_retryCount a + 1 \<and> pendingCommands s = {}
        \<longrightarrow> fst (markResult False s)
              = s\<lparr>queue := a\<lparr>qa_retryCount := qa_retryCount a + 1, qa_processed := True\<rparr> # rest\<rparr>
            \<and> handleResult False s = s\<lparr>queue := rest\<rparr>)
   \<and> (reachable s
        \<longrightarrow> (\<forall>b \<in> set (queue s). qa_retryCount b < QUEUE_MAX_RETRIES \<and> \<not> qa_processed b))
   \<and> (reachable s \<and> \<not> paused s \<and> loop s \<noteq> None
        \<and> 3 * attemptsLeft (queue s) + 3 \<le> length outcomes
        \<longrightarrow> drained (runLoop outcomes s)
            \<and> resolved (runLoop outcomes s) = resolved s + waiters s)"
proof -
  have c1: "loop s = Some InApply \<or> loop s = Some InText
      \<longrightarrow> resumeLoop Rejected s = s\<lparr>loop := Some (Returned False)\<rparr>"
    by (auto simp: resumeLoop_def)
  have c2: "loop s = Some (Returned ok) \<longrightarrow> resumeLoop outcome s = iterate (handleResult ok s)"
    by (simp add: resumeLoop_def)
  have c3: "queue s = a # rest \<and> qa_retryCount a + 1 < QUEUE_MAX_RETRIES
        \<longrightarrow> handleResult False s = s\<lparr>queue := rest @ [a\<lparr>qa_retryCount := qa_retryCount a + 1\<rparr>]\<rparr>"
    by (simp add: handleResult_def markResult_def Let_def)
  have c4: "queue s = a # rest \<and> QUEUE_MAX_RETRIES \<le> qa_retryCount a + 1 \<and> pendingCommands s = {}
        \<longrightarrow> fst (markResult False s)
              = s\<lparr>queue := a\<lparr>qa_retryCount := qa_retryCount a + 1, qa_processed := True\<rparr> # rest\<rparr>
            \<and> handleResult False s = s\<lparr>queue := rest\<rparr>"
    by (simp add: handleResult_def markResult_def shiftProcessed_def Let_def)
  have c5: "reachable s
        \<longrightarrow> (\<forall>b \<in> set (queue s). qa_retryCount b < QUEUE_MAX_RETRIES \<and> \<not> qa_processed b)"
  proof
    assume "reachable s"
    then have "wellFormed s" by (rule reachable_wellFormed)
    then have "list_all retriable (queue s)" by (simp add: wellFormed_def)
    then show "\<forall>b \<in> set (queue s). qa_retryCount b < QUEUE_MAX_RETRIES \<and> \<not> qa_processed b"
      by (simp add: list_all_iff retriable_def)
  qed
  have c6: "reachable s \<and> \<not> paused s \<and> loop s \<noteq> None
        \<and> 3 * attemptsLeft (queue s) + 3 \<le> length outcomes
        \<longrightarrow> drained (runLoop outcomes s)
            \<and> resolved (runLoop outcomes s) = resolved s + waiters s"
  proof
    assume a: "reachable s \<and> \<not> paused s \<and> loop s \<noteq> None
        \<and> 3 * attemptsLeft (queue s) + 3 \<le> length outcomes"
    then have w: "wellFormed s" by (simp add: reachable_wellFormed)
    from resumesLeft_le[OF w] a have "resumesLeft s \<le> length outcomes" by simp
    with w a show "drained (runLoop outcomes s)
            \<and> resolved (runLoop outcomes s) = resolved s + waiters s"
      by (intro runLoop_drains) simp_all
  qed
  show ?thesis by (intro conjI c1 c2 c3 c4 c5 c6)
qed

lemma failingText_reachable: "reachable failingText"
  unfolding failingText_def by (intro reach_step[OF _ step_add] reach_init)

text \<open>
  The TEXT action that always fails: its first failure moves it to the tail with
  \<open>retryCount = 1\<close>, its third failure drops it, and twelve resumptions drain the queue.
\<close>

theorem retry_then_drop_witness:
  "reachable failingText
   \<and> queue failingText = [textAction 0] \<and> loop failingText = Some InText
   \<and> resumeLoop Rejected failingText = failingText\<lparr>loop := Some (Returned False)\<rparr>
   \<and> handleResult False failingText = failingText\<lparr>queue := [textAction 1]\<rparr>
   \<and> handleResult False (textAttempt 2 (Returned False))
       = (textAttempt 2 (Returned False))\<lparr>queue := []\<rparr>
   \<and> drained (runLoop (replicate 12 Rejected) failingText)"
  using retry_then_drop[of failingText False Rejected "textAction 0" "[]" "replicate 12 Rejected"]
        retry_then_drop[of "textAttempt 2 (Returned False)" False Rejected "textAction 2" "[]" "[]"]
        failingText_reachable
  by (simp add: failingText_eval)
     (simp add: textAttempt_def textAction_def newActionQueue_def QUEUE_MAX_RETRIES_def)

end
